theory Spec2Isabelle
  imports Main
begin

unbundle bit_operations_syntax

section \<open>logwrap.c: running a child on a pseudo-terminal and logging its output\<close>

text \<open>
  The theory follows \<^verbatim>\<open>logwrapper/logwrap.c\<close>: \<^verbatim>\<open>parent\<close> (the loop that polls the
  terminal master, cuts what it reads into lines and reaps the child), \<^verbatim>\<open>child\<close> and
  \<^verbatim>\<open>android_fork_execvp\<close>. What the operating system answers to each call is an input of
  the model; what the program does to the outside is a list of actions, in the order of
  the calls.
\<close>

subsection \<open>Bytes, the log sink and the actions of a process\<close>

abbreviation NUL :: char where "NUL \<equiv> CHR 0x00"
abbreviation LF :: char where "LF \<equiv> CHR 0x0A"
abbreviation CR :: char where "CR \<equiv> CHR 0x0D"

datatype priority = LOG_INFO | LOG_ERROR

text \<open>
  The three calls \<^verbatim>\<open>ALOG(LOG_INFO, btag, "%s", &buffer[a])\<close> are told apart by where they
  stand: at a newline (line 89), when the buffer is full (line 98), after the loop
  (line 139).
\<close>

datatype site = AtNewline | AtBufferFull | AtExit

datatype log_text =
    Captured site string
  | TerminatedByExit string int
  | TerminatedBySignal string int
  | StoppedBySignal string int
  | WaitpidFailed int
  | ExecFailed string
  | Message string

datatype signal = SIGINT | SIGQUIT

datatype action =
    MutexLock int
  | MutexUnlock
  | Open string int
  | Close int
  | Grantpt int
  | Unlockpt int
  | Ptsname "string option"
  | SigmaskBlock
  | SigmaskRestore
  | SigactionIgnore signal
  | SigactionRestore signal
  | Fork int
  | Dup2 int int
  | Execvp "string list"
  | Exit int
  | Poll int
  | Read int
  | Waitpid int
  | Stderr log_text
  | ALOG priority string log_text

text \<open>The macro \<^verbatim>\<open>ERROR\<close>: the text goes to stderr and to the log, tagged "logwrapper".\<close>

definition ERROR :: "log_text \<Rightarrow> action list" where
  "ERROR text = [Stderr text, ALOG LOG_ERROR ''logwrapper'' text]"

subsection \<open>What the operating system answers\<close>

text \<open>
  \<^verbatim>\<open>read\<close> either fails (it returns -1) or hands over the bytes the terminal holds by
  then, at most \<open>count\<close> of them; \<open>ReadReturns n\<close> says that \<open>n\<close> bytes of the child's
  output are ready. The bytes not yet read stay pending.
\<close>

datatype read_ev = ReadFails | ReadReturns nat

definition sys_read :: "read_ev \<Rightarrow> nat \<Rightarrow> char list \<Rightarrow> int \<times> char list \<times> char list" where
  "sys_read ev count pending =
     (case ev of
        ReadFails \<Rightarrow> (-1, [], pending)
      | ReadReturns n \<Rightarrow>
          (let k = min n count
           in (int (length (take k pending)), take k pending, drop k pending)))"

text \<open>
  \<^verbatim>\<open>waitpid(pid, &status, WNOHANG)\<close> fails with an errno, or returns 0 (the child still
  runs), or returns the pid and stores the status.
\<close>

datatype wait_ev = WaitFails int | WaitRunning | WaitReaped int

text \<open>
  One turn of the loop: \<^verbatim>\<open>poll\<close> fails, or it returns with \<^verbatim>\<open>revents\<close>. \<open>Ready r w\<close>
  has \<^verbatim>\<open>POLLIN\<close> set when \<open>r\<close> is \<open>Some\<close> answer of \<^verbatim>\<open>read\<close>, and \<^verbatim>\<open>POLLHUP\<close> set when
  \<open>w\<close> is \<open>Some\<close> answer of \<^verbatim>\<open>waitpid\<close>.
\<close>

datatype cycle = PollFails | Ready "read_ev option" "wait_ev option"

text \<open>
  Modelled from the spec: the macros of \<^verbatim>\<open><sys/wait.h>\<close> and the constant \<^verbatim>\<open>ECHILD\<close> of
  \<^verbatim>\<open><errno.h>\<close> are not among the sources. They decode the raw status into the spec's
  outcomes (exited with a code, killed by a signal, stopped by a signal), here on the
  encoding Linux uses: the low seven bits hold the terminating signal (0 after a normal
  exit, 0x7f for a stopped child), bit 7 the core flag, bits 8 to 15 the exit code.
\<close>

definition WEXITSTATUS :: "int \<Rightarrow> int" where
  "WEXITSTATUS s = drop_bit 8 (s AND 0xff00)"

definition WTERMSIG :: "int \<Rightarrow> int" where
  "WTERMSIG s = s AND 0x7f"

definition WSTOPSIG :: "int \<Rightarrow> int" where
  "WSTOPSIG s = WEXITSTATUS s"

definition WIFEXITED :: "int \<Rightarrow> bool" where
  "WIFEXITED s = (WTERMSIG s = 0)"

definition WIFSTOPPED :: "int \<Rightarrow> bool" where
  "WIFSTOPPED s = (WTERMSIG s = 0x7f)"

definition WIFSIGNALED :: "int \<Rightarrow> bool" where
  "WIFSIGNALED s = (WTERMSIG (s + 1) \<ge> 2)"

definition ECHILD :: int where
  "ECHILD = 10"

text \<open>The status the kernel reports for \<^verbatim>\<open>exit(code)\<close> and for death by a signal.\<close>

definition exit_status :: "int \<Rightarrow> int" where
  "exit_status code = push_bit 8 (code AND 0xff)"

definition signal_status :: "int \<Rightarrow> bool \<Rightarrow> int" where
  "signal_status sig core = (sig AND 0x7f) OR (if core then 0x80 else 0)"

text \<open>
  Modelled from the spec: \<^verbatim>\<open>basename\<close> of \<^verbatim>\<open><libgen.h>\<close> is not among the sources; the
  spec has the tag be the program path with its directory components stripped. As the
  library function does, slashes at the end of the path are left aside, an empty path
  gives \<^verbatim>\<open>"."\<close> and a path of slashes only gives \<^verbatim>\<open>"/"\<close>. (It never returns NULL for a
  path, so line 69 keeps its result.)
\<close>

definition basename :: "string \<Rightarrow> string" where
  "basename path =
     (if path = [] then ''.''
      else if dropWhile (\<lambda>c. c = CHR ''/'') path = [] then ''/''
      else rev (takeWhile (\<lambda>c. c \<noteq> CHR ''/'') (dropWhile (\<lambda>c. c = CHR ''/'') (rev path))))"

subsection \<open>The line buffer\<close>

definition sizeof_buffer :: nat where
  "sizeof_buffer = 4096"

text \<open>
  \<^verbatim>\<open>char buffer[4096]\<close> is not initialised: it holds whatever the stack held, here \<open>junk\<close>
  cut or padded to the size of the array.
\<close>

definition uninitialised :: "char list \<Rightarrow> char list" where
  "uninitialised junk = take sizeof_buffer (junk @ replicate sizeof_buffer NUL)"

text \<open>\<^verbatim>\<open>"%s"\<close> of \<^verbatim>\<open>&buffer[i]\<close>: the bytes from index \<open>i\<close> up to the first NUL.\<close>

definition cstring :: "char list \<Rightarrow> nat \<Rightarrow> string" where
  "cstring buffer i = takeWhile (\<lambda>c. c \<noteq> NUL) (drop i buffer)"

text \<open>\<^verbatim>\<open>read\<close> stores the bytes it returns at \<^verbatim>\<open>&buffer[b]\<close>.\<close>

definition store :: "char list \<Rightarrow> nat \<Rightarrow> char list \<Rightarrow> char list" where
  "store buffer b bytes = take b buffer @ bytes @ drop (b + length bytes) buffer"

text \<open>\<^verbatim>\<open>memmove(buffer, &buffer[a], n)\<close>.\<close>

definition memmove :: "char list \<Rightarrow> nat \<Rightarrow> nat \<Rightarrow> char list" where
  "memmove buffer a n = take n (drop a buffer) @ drop n buffer"

text \<open>
  The third argument of \<^verbatim>\<open>read\<close>, \<^verbatim>\<open>sizeof(buffer) - 1 - b\<close>, is computed in \<^verbatim>\<open>size_t\<close>:
  it would wrap around for \<open>b\<close> beyond 4095 (which no run reaches, see \<open>loop_heads_loop_head\<close>).
\<close>

definition read_count :: "nat \<Rightarrow> nat" where
  "read_count b = nat ((int sizeof_buffer - 1 - int b) mod 2 ^ 64)"

text \<open>
  The loop \<^verbatim>\<open>for (b = 0; b < sz; b++)\<close> of lines 83 to 92, entered with the current \<open>b\<close>:
  a carriage return becomes NUL; a newline becomes NUL, the line from \<open>a\<close> is logged and
  \<open>a\<close> moves past it.
\<close>

function scan ::
  "bool \<Rightarrow> string \<Rightarrow> int \<Rightarrow> char list \<Rightarrow> nat \<Rightarrow> nat \<Rightarrow> action list
     \<Rightarrow> char list \<times> nat \<times> nat \<times> action list" where
  "scan logwrap btag sz buffer a b tr =
     (if int b < sz then
        (if buffer ! b = CR then
           scan logwrap btag sz (buffer[b := NUL]) a (b + 1) tr
         else if buffer ! b = LF then
           scan logwrap btag sz (buffer[b := NUL]) (b + 1) (b + 1)
             (if logwrap
              then tr @ [ALOG LOG_INFO btag (Captured AtNewline (cstring (buffer[b := NUL]) a))]
              else tr)
         else scan logwrap btag sz buffer a (b + 1) tr)
      else (buffer, a, b, tr))"
  by pat_completeness auto
termination
  by (relation "measure (\<lambda>(logwrap, btag, sz, buffer, a, b, tr). nat (sz - int b))") auto

declare scan.simps [simp del]

text \<open>
  Lines 79 to 108, the body of \<^verbatim>\<open>if (poll_fds[0].revents & POLLIN)\<close>: read at \<open>b\<close>, scan
  from index 0, then flush a full buffer, or keep the left-overs, or reset. The state is
  the buffer, \<open>a\<close>, \<open>b\<close>, the child's output not yet read, and the actions so far.
  (\<open>b - a\<close> is taken after a scan, where \<open>a \<le> b\<close>: see \<open>scan_bounds\<close>.)
\<close>

definition readable ::
  "bool \<Rightarrow> string \<Rightarrow> read_ev \<Rightarrow> char list \<Rightarrow> nat \<Rightarrow> nat \<Rightarrow> char list \<Rightarrow> action list
     \<Rightarrow> char list \<times> nat \<times> nat \<times> char list \<times> action list" where
  "readable logwrap btag ev buffer a b pending tr =
     (case sys_read ev (read_count b) pending of (ret, bytes, pending') \<Rightarrow>
        (case scan logwrap btag (ret + int b) (store buffer b bytes) a 0 (tr @ [Read ret]) of
           (buffer, a, b, tr) \<Rightarrow>
             if a = 0 \<and> b = sizeof_buffer - 1 then
               (buffer[b := NUL], a, 0, pending',
                if logwrap
                then tr @ [ALOG LOG_INFO btag (Captured AtBufferFull (cstring (buffer[b := NUL]) a))]
                else tr)
             else if a \<noteq> b then
               (memmove buffer a (b - a), 0, b - a, pending', tr)
             else (buffer, 0, 0, pending', tr)))"

subsection \<open>The loop of \<^verbatim>\<open>parent\<close>\<close>

text \<open>
  How \<^verbatim>\<open>while (!found_child)\<close> is left: by \<^verbatim>\<open>goto err_poll\<close>, by \<^verbatim>\<open>goto err_waitpid\<close> with
  the errno, or with the child reaped and its status.
\<close>

datatype loop_exit = ErrPoll | ErrWaitpid int | FoundChild int

text \<open>
  One pass through the body of the loop (lines 72 to 123), from the state at its head: the
  buffer, \<open>a\<close>, \<open>b\<close>, the child's output not yet read, the actions so far. The loop is
  left (\<open>Inl\<close>) or goes back to its head (\<open>Inr\<close>).
\<close>

type_synonym pump_state = "char list \<times> nat \<times> nat \<times> char list \<times> action list"

definition turn ::
  "bool \<Rightarrow> string \<Rightarrow> int \<Rightarrow> cycle \<Rightarrow> char list \<Rightarrow> nat \<Rightarrow> nat \<Rightarrow> char list \<Rightarrow> action list
     \<Rightarrow> (loop_exit \<times> pump_state) + pump_state" where
  "turn logwrap btag pid c buffer a b pending tr =
     (case c of
        PollFails \<Rightarrow>
          Inl (ErrPoll, buffer, a, b, pending,
               tr @ [Poll (- 1)] @ ERROR (Message (''poll failed'' @ [LF])))
      | Ready r w \<Rightarrow>
          (case (case r of
                   None \<Rightarrow> (buffer, a, b, pending, tr @ [Poll 1])
                 | Some ev \<Rightarrow> readable logwrap btag ev buffer a b pending (tr @ [Poll 1])) of
             (buffer, a, b, pending, tr) \<Rightarrow>
               (case w of
                  None \<Rightarrow> Inr (buffer, a, b, pending, tr)
                | Some (WaitFails errno) \<Rightarrow>
                    Inl (ErrWaitpid errno, buffer, a, b, pending,
                         tr @ [Waitpid (- 1), ALOG LOG_ERROR ''logwrap'' (WaitpidFailed errno)])
                | Some WaitRunning \<Rightarrow> Inr (buffer, a, b, pending, tr @ [Waitpid 0])
                | Some (WaitReaped status) \<Rightarrow>
                    Inl (FoundChild status, buffer, a, b, pending, tr @ [Waitpid pid]))))"

text \<open>
  The loop \<^verbatim>\<open>while (!found_child)\<close> takes the answers of the system turn by turn. When they
  run out the program is waiting in \<^verbatim>\<open>poll\<close> (no timeout) and has not returned: the result
  is \<open>None\<close>.
\<close>

fun pump_loop ::
  "bool \<Rightarrow> string \<Rightarrow> int \<Rightarrow> cycle list \<Rightarrow> char list \<Rightarrow> nat \<Rightarrow> nat \<Rightarrow> char list \<Rightarrow> action list
     \<Rightarrow> (loop_exit \<times> pump_state) option" where
  "pump_loop logwrap btag pid [] buffer a b pending tr = None"
| "pump_loop logwrap btag pid (c # cs) buffer a b pending tr =
     (case turn logwrap btag pid c buffer a b pending tr of
        Inl left \<Rightarrow> Some left
      | Inr (buffer, a, b, pending, tr) \<Rightarrow> pump_loop logwrap btag pid cs buffer a b pending tr)"

text \<open>The states in which the head of the loop is reached, in order, the first one included.\<close>

fun loop_heads ::
  "bool \<Rightarrow> string \<Rightarrow> int \<Rightarrow> cycle list \<Rightarrow> char list \<Rightarrow> nat \<Rightarrow> nat \<Rightarrow> char list \<Rightarrow> action list
     \<Rightarrow> pump_state list" where
  "loop_heads logwrap btag pid [] buffer a b pending tr = [(buffer, a, b, pending, tr)]"
| "loop_heads logwrap btag pid (c # cs) buffer a b pending tr =
     (buffer, a, b, pending, tr) #
     (case turn logwrap btag pid c buffer a b pending tr of
        Inl left \<Rightarrow> []
      | Inr (buffer, a, b, pending, tr) \<Rightarrow> loop_heads logwrap btag pid cs buffer a b pending tr)"

text \<open>Lines 135 to 153: the last flush and the line that says how the child ended.\<close>

definition final_log :: "string \<Rightarrow> int \<Rightarrow> char list \<Rightarrow> nat \<Rightarrow> nat \<Rightarrow> action list" where
  "final_log btag status buffer a b =
     (if a \<noteq> b
      then [ALOG LOG_INFO btag (Captured AtExit (cstring (buffer[b := NUL]) a))]
      else []) @
     (if WIFEXITED status then
        (if WEXITSTATUS status \<noteq> 0
         then [ALOG LOG_INFO ''logwrapper'' (TerminatedByExit btag (WEXITSTATUS status))]
         else [])
      else if WIFSIGNALED status then
        [ALOG LOG_INFO ''logwrapper'' (TerminatedBySignal btag (WTERMSIG status))]
      else if WIFSTOPPED status then
        [ALOG LOG_INFO ''logwrapper'' (StoppedBySignal btag (WSTOPSIG status))]
      else [])"

text \<open>
  \<^verbatim>\<open>parent\<close>. \<open>chld_sts\<close> is \<open>None\<close> for a NULL pointer, otherwise what the caller's slot
  holds. The result is \<open>rc\<close>, the slot afterwards, the output left unread and the
  actions.
\<close>

definition parent ::
  "string \<Rightarrow> int \<Rightarrow> int option \<Rightarrow> bool \<Rightarrow> char list \<Rightarrow> char list \<Rightarrow> cycle list
     \<Rightarrow> (int \<times> int option \<times> char list \<times> action list) option" where
  "parent tag pid chld_sts logwrap junk output cs =
     (case pump_loop logwrap (basename tag) pid cs (uninitialised junk) 0 0 output [] of
        None \<Rightarrow> None
      | Some (ErrPoll, buffer, a, b, pending, tr) \<Rightarrow> Some (-1, chld_sts, pending, tr)
      | Some (ErrWaitpid errno, buffer, a, b, pending, tr) \<Rightarrow> Some (errno, chld_sts, pending, tr)
      | Some (FoundChild status, buffer, a, b, pending, tr) \<Rightarrow>
          Some (if chld_sts \<noteq> None then 0
                else if WIFEXITED status then WEXITSTATUS status else - ECHILD,
                if chld_sts \<noteq> None then Some status else None,
                pending,
                tr @ (if logwrap then final_log (basename tag) status buffer a b else [])))"

subsection \<open>\<^verbatim>\<open>child\<close> and \<^verbatim>\<open>android_fork_execvp\<close>\<close>

text \<open>
  What the system answers to the calls of one launch: the results of
  \<^verbatim>\<open>pthread_mutex_lock\<close>, of \<^verbatim>\<open>open("/dev/ptmx")\<close>, \<^verbatim>\<open>grantpt\<close>, \<^verbatim>\<open>unlockpt\<close>, \<^verbatim>\<open>ptsname\<close>, of
  the \<^verbatim>\<open>open\<close> of the child's side, of \<^verbatim>\<open>fork\<close>, whether \<^verbatim>\<open>execvp\<close> fails in the child, and,
  for the loop of \<^verbatim>\<open>parent\<close>, the old content of the stack, the bytes the child writes
  and the answers turn by turn.
\<close>

record launch =
  lock_result :: int
  ptmx_result :: int
  grantpt_result :: int
  unlockpt_result :: int
  ptsname_result :: "string option"
  pts_result :: int
  fork_result :: int
  execvp_fails :: bool
  stack_junk :: "char list"
  child_output :: "char list"
  answers :: "cycle list"

text \<open>
  A call ends in the calling process with \<open>rc\<close> and the caller's status slot, or, in the
  forked child, with the program replaced (\<^verbatim>\<open>execvp\<close> does not return) or with \<^verbatim>\<open>_exit\<close>.
\<close>

datatype outcome = Returned int "int option" | ChildReplaced | ChildExited int

text \<open>\<^verbatim>\<open>argv[0]\<close>; the argument list is not empty (with \<^verbatim>\<open>argc = 0\<close> it would be NULL).\<close>

definition argv0 :: "string list \<Rightarrow> string" where
  "argv0 argv = (case argv of [] \<Rightarrow> [] | p # _ \<Rightarrow> p)"

text \<open>
  \<^verbatim>\<open>child\<close>: \<^verbatim>\<open>execvp\<close> of the copied argument list; when it returns, \<^verbatim>\<open>FATAL_CHILD\<close> reports
  and leaves with \<^verbatim>\<open>_exit(-1)\<close>.
\<close>

definition child :: "string list \<Rightarrow> bool \<Rightarrow> outcome \<times> action list" where
  "child argv fails =
     (if fails
      then (ChildExited (-1), [Execvp argv] @ ERROR (ExecFailed (argv0 argv)) @ [Exit (-1)])
      else (ChildReplaced, [Execvp argv]))"

text \<open>
  Lines 198 and 199: \<^verbatim>\<open>grantpt(..) || unlockpt(..) || (child_devname = ptsname(..)) == 0\<close>,
  evaluated left to right until one fails.
\<close>

definition ptmx_setup :: "launch \<Rightarrow> action list \<times> string option" where
  "ptmx_setup env =
     (if grantpt_result env \<noteq> 0 then ([Grantpt (grantpt_result env)], None)
      else if unlockpt_result env \<noteq> 0
      then ([Grantpt 0, Unlockpt (unlockpt_result env)], None)
      else ([Grantpt 0, Unlockpt 0, Ptsname (ptsname_result env)], ptsname_result env))"

definition android_fork_execvp ::
  "string list \<Rightarrow> int option \<Rightarrow> bool \<Rightarrow> bool \<Rightarrow> launch \<Rightarrow> (outcome \<times> action list) option" where
  "android_fork_execvp argv status ignore_int_quit logwrap env =
     (if lock_result env \<noteq> 0 then
        Some (Returned (lock_result env) status,
              [MutexLock (lock_result env)]
              @ ERROR (Message (''failed to lock signal_fd mutex'' @ [LF])))
      else if ptmx_result env < 0 then
        Some (Returned (-1) status,
              [MutexLock 0, Open ''/dev/ptmx'' (ptmx_result env)]
              @ ERROR (Message (''Cannot create parent ptty'' @ [LF])) @ [MutexUnlock])
      else
        (case ptmx_setup env of
           (granted, None) \<Rightarrow>
             Some (Returned (-1) status,
                   [MutexLock 0, Open ''/dev/ptmx'' (ptmx_result env)] @ granted
                   @ ERROR (Message (''Problem with /dev/ptmx'' @ [LF]))
                   @ [Close (ptmx_result env), MutexUnlock])
         | (granted, Some child_devname) \<Rightarrow>
             if pts_result env < 0 then
               Some (Returned (-1) status,
                     [MutexLock 0, Open ''/dev/ptmx'' (ptmx_result env)] @ granted
                     @ [Open child_devname (pts_result env)]
                     @ ERROR (Message (''Cannot open child_ptty'' @ [LF]))
                     @ [Close (ptmx_result env), MutexUnlock])
             else if fork_result env < 0 then
               Some (Returned (-1) status,
                     [MutexLock 0, Open ''/dev/ptmx'' (ptmx_result env)] @ granted
                     @ [Open child_devname (pts_result env), SigmaskBlock,
                        Fork (fork_result env), Close (pts_result env)]
                     @ ERROR (Message (''Failed to fork'' @ [LF]))
                     @ [SigmaskRestore, Close (ptmx_result env), MutexUnlock])
             else if fork_result env = 0 then
               (case child argv (execvp_fails env) of
                  (out, acts) \<Rightarrow>
                    Some (out,
                          [MutexLock 0, Open ''/dev/ptmx'' (ptmx_result env)] @ granted
                          @ [Open child_devname (pts_result env), SigmaskBlock,
                             Fork 0, MutexUnlock, SigmaskRestore, Close (ptmx_result env),
                             Dup2 (pts_result env) 1, Dup2 (pts_result env) 2,
                             Close (pts_result env)]
                          @ acts))
             else
               (case parent (argv0 argv) (fork_result env) status logwrap
                       (stack_junk env) (child_output env) (answers env) of
                  None \<Rightarrow> None
                | Some (rc, slot, pending, acts) \<Rightarrow>
                    Some (Returned rc slot,
                          [MutexLock 0, Open ''/dev/ptmx'' (ptmx_result env)] @ granted
                          @ [Open child_devname (pts_result env), SigmaskBlock,
                             Fork (fork_result env), Close (pts_result env)]
                          @ (if ignore_int_quit
                             then [SigactionIgnore SIGINT, SigactionIgnore SIGQUIT] else [])
                          @ acts
                          @ (if ignore_int_quit
                             then [SigactionRestore SIGINT, SigactionRestore SIGQUIT] else [])
                          @ [SigmaskRestore, Close (ptmx_result env), MutexUnlock]))))"

subsection \<open>Reading a list of actions\<close>

text \<open>The descriptors open after the actions, from those open before.\<close>

fun descriptors :: "int list \<Rightarrow> action list \<Rightarrow> int list" where
  "descriptors fds [] = fds"
| "descriptors fds (Open path fd # acts) =
     descriptors (if fd < 0 then fds else fd # fds) acts"
| "descriptors fds (Close fd # acts) = descriptors (remove1 fd fds) acts"
| "descriptors fds (Dup2 old new # acts) =
     descriptors (if new \<in> set fds then fds else new # fds) acts"
| "descriptors fds (_ # acts) = descriptors fds acts"

text \<open>
  Whether this process holds \<^verbatim>\<open>fd_mutex\<close> at each call of \<^verbatim>\<open>poll\<close>, in order; \<open>held\<close> is
  the state of the lock before the actions.
\<close>

fun lock_at_polls :: "bool \<Rightarrow> action list \<Rightarrow> bool list" where
  "lock_at_polls held [] = []"
| "lock_at_polls held (MutexLock rc # acts) = lock_at_polls (held \<or> rc = 0) acts"
| "lock_at_polls held (MutexUnlock # acts) = lock_at_polls False acts"
| "lock_at_polls held (Poll r # acts) = held # lock_at_polls held acts"
| "lock_at_polls held (_ # acts) = lock_at_polls held acts"

text \<open>The lines logged for the child: the \<^verbatim>\<open>"%s"\<close> lines, with the place that logged each.\<close>

fun captured :: "action list \<Rightarrow> (site \<times> string) list" where
  "captured [] = []"
| "captured (ALOG p t (Captured st line) # acts) = (st, line) # captured acts"
| "captured (_ # acts) = captured acts"

subsection \<open>Launches and answers used to state the properties\<close>

text \<open>A turn after which the loop goes on: \<^verbatim>\<open>poll\<close> returned and no child was reaped.\<close>

fun continues :: "cycle \<Rightarrow> bool" where
  "continues PollFails = False"
| "continues (Ready r None) = True"
| "continues (Ready r (Some WaitRunning)) = True"
| "continues (Ready r (Some w)) = False"

text \<open>Every step before \<^verbatim>\<open>fork\<close> succeeds.\<close>

definition setup_succeeds :: "launch \<Rightarrow> bool" where
  "setup_succeeds env =
     (lock_result env = 0 \<and> 0 \<le> ptmx_result env \<and> grantpt_result env = 0 \<and>
      unlockpt_result env = 0 \<and> ptsname_result env \<noteq> None \<and> 0 \<le> pts_result env)"

text \<open>
  A launch whose set-up succeeds, in the parent (\<^verbatim>\<open>fork\<close> returns 42): the child writes
  \<open>out\<close> and the system answers \<open>cs\<close>.
\<close>

definition launch_ok :: "char list \<Rightarrow> cycle list \<Rightarrow> launch" where
  "launch_ok out cs =
     \<lparr>lock_result = 0, ptmx_result = 5, grantpt_result = 0, unlockpt_result = 0,
      ptsname_result = Some ''/dev/pts/3'', pts_result = 6, fork_result = 42,
      execvp_fails = False, stack_junk = [], child_output = out, answers = cs\<rparr>"

text \<open>One of the steps up to \<^verbatim>\<open>fork\<close> fails.\<close>

definition setup_fails :: "launch \<Rightarrow> bool" where
  "setup_fails env =
     (lock_result env \<noteq> 0 \<or> ptmx_result env < 0 \<or> grantpt_result env \<noteq> 0 \<or>
      unlockpt_result env \<noteq> 0 \<or> ptsname_result env = None \<or> pts_result env < 0 \<or>
      fork_result env < 0)"

text \<open>The calls that take or release \<^verbatim>\<open>fd_mutex\<close>.\<close>

fun lock_call :: "action \<Rightarrow> bool" where
  "lock_call (MutexLock rc) = True"
| "lock_call MutexUnlock = True"
| "lock_call _ = False"

subsection \<open>The scan and the stream, on lists\<close>

text \<open>What the scan leaves in the buffer for a byte it has passed.\<close>

definition nul :: "char \<Rightarrow> char" where
  "nul c = (if c = CR \<or> c = LF then NUL else c)"

text \<open>
  The scan read off the bytes it passes, \<open>cur\<close> being the stored bytes of the line it is
  in: the lines it logs, and the stored bytes of the line left open at the end.
\<close>

fun scan_lines :: "char list \<Rightarrow> char list \<Rightarrow> string list" where
  "scan_lines cur [] = []"
| "scan_lines cur (c # cs) =
     (if c = CR then scan_lines (cur @ [NUL]) cs
      else if c = LF then takeWhile (\<lambda>c. c \<noteq> NUL) cur # scan_lines [] cs
      else scan_lines (cur @ [c]) cs)"

fun scan_rest :: "char list \<Rightarrow> char list \<Rightarrow> char list" where
  "scan_rest cur [] = cur"
| "scan_rest cur (c # cs) =
     (if c = CR then scan_rest (cur @ [NUL]) cs
      else if c = LF then scan_rest [] cs
      else scan_rest (cur @ [c]) cs)"

text \<open>
  What \<^verbatim>\<open>"%s"\<close> shows of the bytes of a piece once they are stored: they end at the first
  NUL, and a carriage return is stored as NUL.
\<close>

definition shown :: "char list \<Rightarrow> string" where
  "shown piece = takeWhile (\<lambda>c. c \<noteq> NUL \<and> c \<noteq> CR) piece"

text \<open>
  The child's output cut into pieces byte by byte, whatever the reads were: a newline
  ends a piece, and so does the byte that fills the buffer (4095 bytes without a
  newline). \<open>cur\<close> is the piece being read; \<open>finished\<close> lists the pieces that end within
  the bytes given, as logged, and \<open>unfinished\<close> is the piece left open.
\<close>

fun finished :: "char list \<Rightarrow> char list \<Rightarrow> (site \<times> string) list" where
  "finished cur [] = []"
| "finished cur (c # cs) =
     (if c = LF then (AtNewline, shown cur) # finished [] cs
      else if length cur + 1 = sizeof_buffer - 1
      then (AtBufferFull, shown (cur @ [c])) # finished [] cs
      else finished (cur @ [c]) cs)"

fun unfinished :: "char list \<Rightarrow> char list \<Rightarrow> char list" where
  "unfinished cur [] = cur"
| "unfinished cur (c # cs) =
     (if c = LF then unfinished [] cs
      else if length cur + 1 = sizeof_buffer - 1 then unfinished [] cs
      else unfinished (cur @ [c]) cs)"

text \<open>All the lines of an output that was read to its end: the open piece is logged last.\<close>

definition reassemble :: "char list \<Rightarrow> (site \<times> string) list" where
  "reassemble s =
     finished [] s @ (if unfinished [] s = [] then [] else [(AtExit, shown (unfinished [] s))])"

text \<open>
  The bytes of the output that the loop has read when it ends, from what the system
  answers: a read takes the bytes that are ready, at most \<open>read_count b\<close> of them, where
  \<open>b\<close> is the number of bytes of the open piece \<open>frag\<close> held in the buffer; the loop
  stops at the turn in which the child is reaped or a call fails. (A read that fails
  takes nothing, and the buffer then holds one byte less.)
\<close>

fun taken :: "cycle list \<Rightarrow> char list \<Rightarrow> char list \<Rightarrow> char list" where
  "taken [] frag pending = []"
| "taken (PollFails # cs) frag pending = []"
| "taken (Ready None w # cs) frag pending =
     (if continues (Ready None w) then taken cs frag pending else [])"
| "taken (Ready (Some ReadFails) w # cs) frag pending =
     (if continues (Ready (Some ReadFails) w) then taken cs (butlast frag) pending else [])"
| "taken (Ready (Some (ReadReturns n)) w # cs) frag pending =
     (let bytes = take (min n (read_count (length frag))) pending
      in bytes @
         (if continues (Ready (Some (ReadReturns n)) w)
          then taken cs (unfinished frag bytes) (drop (length bytes) pending)
          else []))"

text \<open>
  The state at the head of the loop when \<open>frag\<close> are the bytes read since the last piece
  ended: they are stored at the start of the buffer, and \<open>a\<close> is 0.
\<close>

definition at_head :: "char list \<Rightarrow> nat \<Rightarrow> nat \<Rightarrow> char list \<Rightarrow> bool" where
  "at_head buffer a b frag =
     (a = 0 \<and> b = length frag \<and> length frag < sizeof_buffer - 1 \<and>
      length buffer = sizeof_buffer \<and> take b buffer = map nul frag \<and> LF \<notin> set frag)"

text \<open>The action that logs a line of the child.\<close>

definition logged :: "string \<Rightarrow> site \<times> string \<Rightarrow> action" where
  "logged btag l = ALOG LOG_INFO btag (Captured (fst l) (snd l))"

text \<open>
  The invariant of the line buffer: \<open>a \<le> b \<le> capacity\<close> (both are indices, never
  negative), and the capacity stays \<^verbatim>\<open>sizeof(buffer)\<close>.
\<close>

definition in_bounds :: "char list \<Rightarrow> nat \<Rightarrow> nat \<Rightarrow> bool" where
  "in_bounds buffer a b = (a \<le> b \<and> b \<le> sizeof_buffer \<and> length buffer = sizeof_buffer)"

text \<open>
  What holds whenever the head of the loop is reached: \<open>a\<close> is 0, fewer than 4095 bytes
  are kept, and the scan has already passed them (no carriage return or newline is left
  among them).
\<close>

definition loop_head :: "char list \<Rightarrow> nat \<Rightarrow> nat \<Rightarrow> bool" where
  "loop_head buffer a b =
     (a = 0 \<and> b < sizeof_buffer - 1 \<and> length buffer = sizeof_buffer \<and>
      CR \<notin> set (take b buffer) \<and> LF \<notin> set (take b buffer))"

text \<open>
  The status with which the loop ends when the answers let it end by reaping the child
  and no read before that fails; \<open>None\<close> otherwise.
\<close>

fun reaped :: "cycle list \<Rightarrow> int option" where
  "reaped [] = None"
| "reaped (PollFails # cs) = None"
| "reaped (Ready (Some ReadFails) w # cs) = None"
| "reaped (Ready r None # cs) = reaped cs"
| "reaped (Ready r (Some WaitRunning) # cs) = reaped cs"
| "reaped (Ready r (Some (WaitFails errno)) # cs) = None"
| "reaped (Ready r (Some (WaitReaped status)) # cs) = Some status"

text \<open>
  A logged line with what was stripped from it put back: the newline after a line that a
  newline ended; nothing after a line that was flushed.
\<close>

definition restore :: "site \<times> string \<Rightarrow> char list" where
  "restore l = (if fst l = AtNewline then snd l @ [LF] else snd l)"

text \<open>Every carriage return of the output stands right before a newline, or is its last byte.\<close>

fun cr_before_lf :: "char list \<Rightarrow> bool" where
  "cr_before_lf (c # d # s) = ((c = CR \<longrightarrow> d = LF) \<and> cr_before_lf (d # s))"
| "cr_before_lf s = True"

text \<open>What \<^verbatim>\<open>"%s"\<close> does not show of a piece: its bytes from the first NUL or carriage return on.\<close>

definition cut_off :: "char list \<Rightarrow> char list" where
  "cut_off piece = dropWhile (\<lambda>c. c \<noteq> NUL \<and> c \<noteq> CR) piece"

text \<open>
  What is cut from each piece of the output, in the order of \<open>finished\<close>: the bytes not
  shown, and the newline when one ended the piece.
\<close>

fun cuts :: "char list \<Rightarrow> char list \<Rightarrow> char list list" where
  "cuts cur [] = []"
| "cuts cur (c # cs) =
     (if c = LF then (cut_off cur @ [LF]) # cuts [] cs
      else if length cur + 1 = sizeof_buffer - 1 then cut_off (cur @ [c]) # cuts [] cs
      else cuts (cur @ [c]) cs)"

definition all_cuts :: "char list \<Rightarrow> char list list" where
  "all_cuts s = cuts [] s @ (if unfinished [] s = [] then [] else [cut_off (unfinished [] s)])"

text \<open>
  \<open>t\<close> is a terminator stripped from the logged line \<open>l\<close>: a newline, with or without a
  carriage return before it, for a line that a newline ended; nothing or a carriage
  return for a line that was flushed.
\<close>

definition stripped_from :: "site \<times> string \<Rightarrow> char list \<Rightarrow> bool" where
  "stripped_from l t =
     (if fst l = AtNewline then t = [LF] \<or> t = [CR, LF] else t = [] \<or> t = [CR])"

text \<open>The logged lines, each followed by the terminator given for it.\<close>

definition put_back :: "(site \<times> string) list \<Rightarrow> char list list \<Rightarrow> char list" where
  "put_back ls ts = concat (map2 (\<lambda>l t. snd l @ t) ls ts)"

section \<open>Properties\<close>

text \<open>The equations that evaluate a run on given answers.\<close>

lemmas run_defs = parent_def turn_def uninitialised_def sizeof_buffer_def readable_def sys_read_def
  read_count_def store_def scan.simps cstring_def memmove_def final_log_def basename_def
  WIFEXITED_def WTERMSIG_def WEXITSTATUS_def WIFSIGNALED_def WIFSTOPPED_def ERROR_def

lemmas launch_defs = launch_ok_def android_fork_execvp_def ptmx_setup_def argv0_def child_def



subsection \<open>Leaving the loop\<close>

lemma turn_continues:
  "continues c \<Longrightarrow> \<exists>s. turn logwrap btag pid c buffer a b pending tr = Inr s"
proof (cases c)
  case PollFails
  then show "continues c \<Longrightarrow> ?thesis" by simp
next
  case (Ready r w)
  assume "continues c"
  with Ready have w: "w = None \<or> w = Some WaitRunning"
    by (cases w; cases "the w") auto
  obtain bu1 a1 b1 p1 t1 where
    "(case r of None \<Rightarrow> (buffer, a, b, pending, tr @ [Poll 1])
      | Some ev \<Rightarrow> readable logwrap btag ev buffer a b pending (tr @ [Poll 1]))
     = (bu1, a1, b1, p1, t1)"
    by (metis prod_cases5)
  with w Ready show ?thesis by (auto simp: turn_def)
qed

lemma turn_reaps:
  "\<exists>s. turn logwrap btag pid (Ready r (Some (WaitReaped st))) buffer a b pending tr
         = Inl (FoundChild st, s)"
proof -
  obtain bu1 a1 b1 p1 t1 where
    "(case r of None \<Rightarrow> (buffer, a, b, pending, tr @ [Poll 1])
      | Some ev \<Rightarrow> readable logwrap btag ev buffer a b pending (tr @ [Poll 1]))
     = (bu1, a1, b1, p1, t1)"
    by (metis prod_cases5)
  then show ?thesis by (simp add: turn_def)
qed

lemma pump_loop_reaps:
  "list_all continues cs \<Longrightarrow>
   \<exists>buffer' a' b' pending' tr'.
     pump_loop logwrap btag pid (cs @ Ready r (Some (WaitReaped st)) # later) buffer a b pending tr
       = Some (FoundChild st, buffer', a', b', pending', tr')"
proof (induction cs arbitrary: buffer a b pending tr)
  case Nil
  from turn_reaps [of logwrap btag pid r st buffer a b pending tr]
  obtain s where "turn logwrap btag pid (Ready r (Some (WaitReaped st))) buffer a b pending tr
         = Inl (FoundChild st, s)" by blast
  then show ?case by (cases s) simp
next
  case (Cons c cs)
  then have c: "continues c" and cs: "list_all continues cs" by simp_all
  from turn_continues [OF c, of logwrap btag pid buffer a b pending tr]
  obtain bu1 a1 b1 p1 t1 where
    "turn logwrap btag pid c buffer a b pending tr = Inr (bu1, a1, b1, p1, t1)"
    by (metis prod_cases5)
  with Cons.IH [OF cs, of bu1 a1 b1 p1 t1] show ?case by simp
qed

lemma parent_reaps:
  assumes "list_all continues cs"
  shows "\<exists>pending tr.
     parent tag pid chld_sts logwrap junk out (cs @ Ready r (Some (WaitReaped st)) # later)
       = Some (if chld_sts \<noteq> None then 0
               else if WIFEXITED st then WEXITSTATUS st else - ECHILD,
               if chld_sts \<noteq> None then Some st else None, pending, tr)"
proof -
  from pump_loop_reaps [OF assms, where logwrap = logwrap and btag = "basename tag"
      and pid = pid and r = r and st = st and later = later
      and buffer = "uninitialised junk" and a = 0 and b = 0 and pending = out and tr = "[]"]
  obtain buffer' a' b' pending' tr' where
    "pump_loop logwrap (basename tag) pid (cs @ Ready r (Some (WaitReaped st)) # later)
       (uninitialised junk) 0 0 out [] = Some (FoundChild st, buffer', a', b', pending', tr')"
    by blast
  then show ?thesis by (simp add: parent_def)
qed

lemma launch_parent:
  assumes "setup_succeeds env" "0 < fork_result env"
    and "parent (argv0 argv) (fork_result env) status logwrap
           (stack_junk env) (child_output env) (answers env) = Some (rc, slot, pending, acts)"
  shows "\<exists>tr. android_fork_execvp argv status ignore_int_quit logwrap env = Some (Returned rc slot, tr)"
  using assms by (auto simp: android_fork_execvp_def setup_succeeds_def ptmx_setup_def)

subsection \<open>The status macros\<close>

lemma and_ff: "(x::int) AND 0xff = x mod 256"
proof -
  have "x AND mask 8 = x mod 2 ^ 8" by (simp add: take_bit_eq_mod flip: take_bit_eq_mask)
  then show ?thesis by (simp add: mask_eq_exp_minus_1)
qed

lemma and_7f: "(x::int) AND 0x7f = x mod 128"
proof -
  have "x AND mask 7 = x mod 2 ^ 7" by (simp add: take_bit_eq_mod flip: take_bit_eq_mask)
  then show ?thesis by (simp add: mask_eq_exp_minus_1)
qed

lemma WTERMSIG_mod: "WTERMSIG s = s mod 128"
  by (simp add: WTERMSIG_def and_7f)

lemma WEXITSTATUS_mod: "WEXITSTATUS s = (s div 256) mod 256"
proof -
  have a: "drop_bit 8 (s AND push_bit 8 (mask 8)) = drop_bit 8 s AND mask 8"
    by (simp add: bit_eq_iff bit_simps)
  have b: "push_bit 8 (mask 8) = (0xff00::int)"
    by (simp add: mask_eq_exp_minus_1 push_bit_eq_mult)
  have c: "mask 8 = (0xff::int)"
    by (simp add: mask_eq_exp_minus_1)
  from a show ?thesis
    unfolding b c by (simp add: WEXITSTATUS_def and_ff drop_bit_eq_div)
qed

lemma WIFEXITED_exit: "WIFEXITED (exit_status n)"
  by (simp add: WIFEXITED_def WTERMSIG_mod exit_status_def push_bit_eq_mult)

lemma WEXITSTATUS_exit: "0 \<le> n \<Longrightarrow> n \<le> 255 \<Longrightarrow> WEXITSTATUS (exit_status n) = n"
  by (simp add: WEXITSTATUS_mod exit_status_def push_bit_eq_mult and_ff)

lemma WTERMSIG_signal:
  assumes "0 \<le> sig" "sig < 128"
  shows "WTERMSIG (signal_status sig core) = sig"
proof -
  have "(sig mod 128 OR (if core then 0x80 else 0)) mod 128 = sig mod 128"
  proof -
    have "take_bit 7 (take_bit 7 sig OR (if core then 128 else 0)) = take_bit 7 sig"
      by simp
    then show ?thesis unfolding take_bit_eq_mod by simp
  qed
  with assms show ?thesis
    by (simp add: WTERMSIG_mod signal_status_def and_7f)
qed

subsection \<open>The result of a launch\<close>

text \<open>
  C4. Without a status slot, when every step of the set-up succeeds and the loop ends by
  reaping the child: a child that exited with code \<open>n\<close> (0 to 255) makes the call return
  \<open>n\<close>; a child killed by a signal makes it return \<open>- ECHILD\<close>, one negative value, which
  is no exit code.
\<close>

theorem exit_code_translated:
  assumes "setup_succeeds env" and "0 < fork_result env"
    and "answers env = cs @ Ready r (Some (WaitReaped st)) # later"
    and "list_all continues cs"
  shows "(0 \<le> n \<and> n \<le> 255 \<and> st = exit_status n \<longrightarrow>
           (\<exists>tr. android_fork_execvp argv None ignore_int_quit logwrap env
                    = Some (Returned n None, tr)))
       \<and> (1 \<le> sig \<and> sig < 127 \<and> st = signal_status sig core \<longrightarrow>
           (\<exists>tr. android_fork_execvp argv None ignore_int_quit logwrap env
                    = Some (Returned (- ECHILD) None, tr)))
       \<and> - ECHILD < 0 \<and> (\<forall>n. 0 \<le> n \<and> n \<le> 255 \<longrightarrow> - ECHILD \<noteq> n)"
proof -
  from parent_reaps [OF assms(4), where tag = "argv0 argv" and pid = "fork_result env"
        and chld_sts = None and logwrap = logwrap and junk = "stack_junk env"
        and out = "child_output env" and r = r and st = st and later = later] assms(3)
  obtain pending acts where p:
    "parent (argv0 argv) (fork_result env) None logwrap (stack_junk env) (child_output env)
       (answers env)
     = Some (if WIFEXITED st then WEXITSTATUS st else - ECHILD, None, pending, acts)"
    by auto
  have ex: "\<exists>tr. android_fork_execvp argv None ignore_int_quit logwrap env
              = Some (Returned (if WIFEXITED st then WEXITSTATUS st else - ECHILD) None, tr)"
    by (rule launch_parent [OF assms(1,2) p])
  have e: "0 \<le> n \<and> n \<le> 255 \<and> st = exit_status n \<Longrightarrow>
           (if WIFEXITED st then WEXITSTATUS st else - ECHILD) = n"
    by (simp add: WIFEXITED_exit WEXITSTATUS_exit)
  have s: "1 \<le> sig \<and> sig < 127 \<and> st = signal_status sig core \<Longrightarrow>
           (if WIFEXITED st then WEXITSTATUS st else - ECHILD) = - ECHILD"
    by (simp add: WIFEXITED_def WTERMSIG_signal)
  from ex e s show ?thesis by (auto simp: ECHILD_def)
qed

theorem exit_code_translated_witness:
  "setup_succeeds (launch_ok [] [Ready None (Some (WaitReaped (exit_status 3)))])
   \<and> 0 < fork_result (launch_ok [] [Ready None (Some (WaitReaped (exit_status 3)))])
   \<and> list_all continues []
   \<and> (\<exists>tr. android_fork_execvp [''/bin/false''] None False True
              (launch_ok [] [Ready None (Some (WaitReaped (exit_status 3)))])
            = Some (Returned 3 None, tr))
   \<and> (\<exists>tr. android_fork_execvp [''/bin/cat''] None False True
              (launch_ok [] [Ready None (Some (WaitReaped (signal_status 9 False)))])
            = Some (Returned (- ECHILD) None, tr))"
  using exit_code_translated [where env = "launch_ok [] [Ready None (Some (WaitReaped (exit_status 3)))]"
          and cs = "[]" and r = None and st = "exit_status 3" and later = "[]" and n = 3
          and argv = "[''/bin/false'']" and ignore_int_quit = False and logwrap = True]
        exit_code_translated [where env = "launch_ok [] [Ready None (Some (WaitReaped (signal_status 9 False)))]"
          and cs = "[]" and r = None and st = "signal_status 9 False" and later = "[]"
          and sig = 9 and core = False
          and argv = "[''/bin/cat'']" and ignore_int_quit = False and logwrap = True]
  by (simp add: setup_succeeds_def launch_ok_def)

text \<open>
  C5 as stated fails: with a status slot the call does not return the raw status. A child
  that exits with code 3 has raw status 768; the call returns 0 and stores 768 in the slot.
\<close>

theorem status_slot_result_counterexample:
  "android_fork_execvp [''/bin/false''] (Some 0) False False
     (launch_ok [] [Ready None (Some (WaitReaped (exit_status 3)))])
   = Some (Returned 0 (Some 768),
           [MutexLock 0, Open ''/dev/ptmx'' 5, Grantpt 0, Unlockpt 0,
            Ptsname (Some ''/dev/pts/3''), Open ''/dev/pts/3'' 6, SigmaskBlock, Fork 42,
            Close 6, Poll 1, Waitpid 42, SigmaskRestore, Close 5, MutexUnlock])
   \<and> exit_status 3 = 768"
  by (simp add: launch_defs run_defs exit_status_def)

text \<open>
  C5, amended. With a status slot, when the set-up succeeds and the loop ends by reaping
  the child, the call returns 0 and the slot holds the raw status of the child.
\<close>

theorem status_slot_result:
  assumes "setup_succeeds env" and "0 < fork_result env"
    and "answers env = cs @ Ready r (Some (WaitReaped st)) # later"
    and "list_all continues cs"
  shows "\<exists>tr. android_fork_execvp argv (Some old) ignore_int_quit logwrap env
                = Some (Returned 0 (Some st), tr)"
proof -
  from parent_reaps [OF assms(4), where tag = "argv0 argv" and pid = "fork_result env"
        and chld_sts = "Some old" and logwrap = logwrap and junk = "stack_junk env"
        and out = "child_output env" and r = r and st = st and later = later] assms(3)
  obtain pending acts where
    "parent (argv0 argv) (fork_result env) (Some old) logwrap (stack_junk env)
       (child_output env) (answers env) = Some (0, Some st, pending, acts)"
    by auto
  then show ?thesis by (rule launch_parent [OF assms(1,2)])
qed

theorem status_slot_result_witness:
  "setup_succeeds (launch_ok [] [Ready None (Some (WaitReaped (signal_status 9 False)))])
   \<and> (\<exists>tr. android_fork_execvp [''/bin/cat''] (Some 0) True True
              (launch_ok [] [Ready None (Some (WaitReaped (signal_status 9 False)))])
            = Some (Returned 0 (Some (signal_status 9 False)), tr))"
  using status_slot_result [where env = "launch_ok [] [Ready None (Some (WaitReaped (signal_status 9 False)))]"
          and cs = "[]" and r = None and st = "signal_status 9 False" and later = "[]"
          and argv = "[''/bin/cat'']" and ignore_int_quit = True and logwrap = True and old = 0]
  by (simp add: setup_succeeds_def launch_ok_def)

subsection \<open>Failures of the set-up\<close>

lemma setup_failure_lock:
  assumes "lock_result env \<noteq> 0"
  shows "\<exists>tr. android_fork_execvp argv status ignore_int_quit logwrap env
                = Some (Returned (lock_result env) status, tr)
              \<and> captured tr = [] \<and> descriptors [] tr = []"
  using assms by (simp add: android_fork_execvp_def ERROR_def)

lemma setup_failure_later:
  assumes "lock_result env = 0"
    and "ptmx_result env < 0 \<or> grantpt_result env \<noteq> 0 \<or>
      unlockpt_result env \<noteq> 0 \<or> ptsname_result env = None \<or> pts_result env < 0 \<or>
      fork_result env < 0"
  shows "\<exists>tr. android_fork_execvp argv status ignore_int_quit logwrap env
                = Some (Returned (- 1) status, tr)
              \<and> captured tr = [] \<and> descriptors [] tr = []"
proof (cases "ptmx_result env < 0")
  case True
  with assms(1) show ?thesis by (simp add: android_fork_execvp_def ERROR_def)
next
  case open_ok: False
  show ?thesis
  proof (cases "ptmx_setup env")
    case (Pair granted name)
    show ?thesis
    proof (cases name)
      case None
      with Pair have "granted = [Grantpt (grantpt_result env)] \<or>
         granted = [Grantpt 0, Unlockpt (unlockpt_result env)] \<or>
         granted = [Grantpt 0, Unlockpt 0, Ptsname (ptsname_result env)]"
        by (auto simp: ptmx_setup_def split: if_splits)
      with None Pair assms(1) open_ok show ?thesis
        by (auto simp: android_fork_execvp_def ERROR_def)
    next
      case (Some devname)
      with Pair have g: "granted = [Grantpt 0, Unlockpt 0, Ptsname (ptsname_result env)]"
        and ok: "grantpt_result env = 0" "unlockpt_result env = 0" "ptsname_result env \<noteq> None"
        by (auto simp: ptmx_setup_def split: if_splits)
      with assms(2) open_ok have "pts_result env < 0 \<or> fork_result env < 0" by simp
      with Some Pair g assms(1) open_ok show ?thesis
        by (auto simp: android_fork_execvp_def ERROR_def)
    qed
  qed
qed

text \<open>
  C6 as stated fails: when \<^verbatim>\<open>pthread_mutex_lock\<close> fails with error number 22 the call
  returns 22, which is not negative.
\<close>

theorem setup_failure_counterexample:
  "setup_fails (launch_ok [] [] \<lparr>lock_result := 22\<rparr>)
   \<and> android_fork_execvp [''/bin/true''] None False True (launch_ok [] [] \<lparr>lock_result := 22\<rparr>)
     = Some (Returned 22 None,
             [MutexLock 22, Stderr (Message (''failed to lock signal_fd mutex'' @ [LF])),
              ALOG LOG_ERROR ''logwrapper'' (Message (''failed to lock signal_fd mutex'' @ [LF]))])"
  by (simp add: launch_ok_def setup_fails_def android_fork_execvp_def ERROR_def)

text \<open>
  C6, amended. When a step of the set-up fails, the call returns the error number of
  \<^verbatim>\<open>pthread_mutex_lock\<close> if the lock could not be taken and -1 otherwise; it leaves the
  status slot as it was, logs no line of the child, and has closed every descriptor it
  opened.
\<close>

theorem setup_failure:
  assumes "setup_fails env"
  shows "\<exists>tr. android_fork_execvp argv status ignore_int_quit logwrap env
                = Some (Returned (if lock_result env \<noteq> 0 then lock_result env else - 1) status, tr)
              \<and> captured tr = [] \<and> descriptors [] tr = []"
proof (cases "lock_result env = 0")
  case True
  with assms setup_failure_later [OF True] show ?thesis by (simp add: setup_fails_def)
next
  case False
  with setup_failure_lock show ?thesis by simp
qed

theorem setup_failure_witness:
  "setup_fails (launch_ok [] [] \<lparr>fork_result := - 1\<rparr>)
   \<and> (\<exists>tr. android_fork_execvp [''/bin/true''] None False True
               (launch_ok [] [] \<lparr>fork_result := - 1\<rparr>)
             = Some (Returned (- 1) None, tr)
           \<and> captured tr = [] \<and> descriptors [] tr = [])"
  using setup_failure [where env = "launch_ok [] [] \<lparr>fork_result := - 1\<rparr>"
          and argv = "[''/bin/true'']" and status = None and ignore_int_quit = False
          and logwrap = True]
  by (simp add: setup_fails_def launch_ok_def)

subsection \<open>The lock\<close>

lemma scan_no_lock_call:
  "list_all (\<lambda>x. \<not> lock_call x) tr \<Longrightarrow>
   scan logwrap btag sz buffer a b tr = (buffer', a', b', tr') \<Longrightarrow>
   list_all (\<lambda>x. \<not> lock_call x) tr'"
proof (induction logwrap btag sz buffer a b tr rule: scan.induct)
  case (1 logwrap btag sz buffer a b tr)
  show ?case
  proof (cases "int b < sz")
    case False
    with "1.prems" show ?thesis by (subst (asm) scan.simps) simp
  next
    case True
    with "1.prems"(2) "1.IH" "1.prems"(1) show ?thesis
      by (subst (asm) scan.simps) (auto split: if_splits)
  qed
qed

lemma readable_no_lock_call:
  assumes "list_all (\<lambda>x. \<not> lock_call x) tr"
    and "readable logwrap btag ev buffer a b pending tr = (buffer', a', b', pending', tr')"
  shows "list_all (\<lambda>x. \<not> lock_call x) tr'"
proof -
  obtain ret bytes p1 where r: "sys_read ev (read_count b) pending = (ret, bytes, p1)"
    by (metis prod_cases3)
  obtain bu2 a2 b2 t2 where
    s: "scan logwrap btag (ret + int b) (store buffer b bytes) a 0 (tr @ [Read ret]) = (bu2, a2, b2, t2)"
    by (metis prod_cases4)
  from assms(1) have "list_all (\<lambda>x. \<not> lock_call x) (tr @ [Read ret])" by simp
  from scan_no_lock_call [OF this s] have "list_all (\<lambda>x. \<not> lock_call x) t2" .
  with assms(2) r s show ?thesis
    by (auto simp: readable_def split: if_splits)
qed

lemma turn_no_lock_call:
  assumes "list_all (\<lambda>x. \<not> lock_call x) tr"
    and "turn logwrap btag pid c buffer a b pending tr = Inl (e, buffer', a', b', pending', tr')
         \<or> turn logwrap btag pid c buffer a b pending tr = Inr (buffer', a', b', pending', tr')"
  shows "list_all (\<lambda>x. \<not> lock_call x) tr'"
proof (cases c)
  case PollFails
  with assms show ?thesis by (auto simp: turn_def ERROR_def)
next
  case (Ready r w)
  obtain bu1 a1 b1 p1 t1 where
    st: "(case r of None \<Rightarrow> (buffer, a, b, pending, tr @ [Poll 1])
          | Some ev \<Rightarrow> readable logwrap btag ev buffer a b pending (tr @ [Poll 1]))
         = (bu1, a1, b1, p1, t1)"
    by (metis prod_cases5)
  from assms(1) have p: "list_all (\<lambda>x. \<not> lock_call x) (tr @ [Poll 1])" by simp
  have t1: "list_all (\<lambda>x. \<not> lock_call x) t1"
  proof (cases r)
    case None
    with st p show ?thesis by auto
  next
    case (Some ev)
    with st have "readable logwrap btag ev buffer a b pending (tr @ [Poll 1]) = (bu1, a1, b1, p1, t1)"
      by simp
    from readable_no_lock_call [OF p this] show ?thesis .
  qed
  from assms(2) Ready st t1 show ?thesis
    by (auto simp: turn_def split: option.splits wait_ev.splits)
qed

lemma pump_loop_no_lock_call:
  "list_all (\<lambda>x. \<not> lock_call x) tr \<Longrightarrow>
   pump_loop logwrap btag pid cs buffer a b pending tr = Some (e, buffer', a', b', pending', tr') \<Longrightarrow>
   list_all (\<lambda>x. \<not> lock_call x) tr'"
proof (induction cs arbitrary: buffer a b pending tr)
  case Nil
  then show ?case by simp
next
  case (Cons c cs)
  show ?case
  proof (cases "turn logwrap btag pid c buffer a b pending tr")
    case (Inl left)
    with Cons.prems(2) have "turn logwrap btag pid c buffer a b pending tr
        = Inl (e, buffer', a', b', pending', tr')" by simp
    with turn_no_lock_call [OF Cons.prems(1)] show ?thesis by blast
  next
    case (Inr s)
    obtain bu1 a1 b1 p1 t1 where s: "s = (bu1, a1, b1, p1, t1)" by (metis prod_cases5)
    with Inr turn_no_lock_call [OF Cons.prems(1), of logwrap btag pid c buffer a b pending e bu1 a1 b1 p1 t1]
    have "list_all (\<lambda>x. \<not> lock_call x) t1" by simp
    moreover from Inr s Cons.prems(2) have
      "pump_loop logwrap btag pid cs bu1 a1 b1 p1 t1 = Some (e, buffer', a', b', pending', tr')"
      by simp
    ultimately show ?thesis by (rule Cons.IH)
  qed
qed

lemma parent_loop:
  assumes "parent tag pid chld_sts logwrap junk out cs = Some (rc, slot, pending, tr)"
  shows "\<exists>e buffer' a' b' tr'.
           pump_loop logwrap (basename tag) pid cs (uninitialised junk) 0 0 out []
             = Some (e, buffer', a', b', pending, tr')
           \<and> tr = tr' @ (case e of
                           FoundChild st \<Rightarrow>
                             if logwrap then final_log (basename tag) st buffer' a' b' else []
                         | _ \<Rightarrow> [])"
proof (cases "pump_loop logwrap (basename tag) pid cs (uninitialised junk) 0 0 out []")
  case None
  with assms show ?thesis by (simp add: parent_def)
next
  case (Some res)
  obtain e buffer' a' b' p' tr' where res: "res = (e, buffer', a', b', p', tr')"
    by (metis prod_cases6)
  with Some assms show ?thesis by (cases e) (auto simp: parent_def)
qed

lemma final_log_no_lock_call:
  "list_all (\<lambda>x. \<not> lock_call x) (final_log btag st buffer a b)"
  by (simp add: final_log_def)

lemma parent_no_lock_call:
  assumes "parent tag pid chld_sts logwrap junk out cs = Some (rc, slot, pending, tr)"
  shows "list_all (\<lambda>x. \<not> lock_call x) tr"
proof -
  from parent_loop [OF assms] obtain e buffer' a' b' tr' where
    p: "pump_loop logwrap (basename tag) pid cs (uninitialised junk) 0 0 out []
          = Some (e, buffer', a', b', pending, tr')"
    and t: "tr = tr' @ (case e of
                           FoundChild st \<Rightarrow>
                             if logwrap then final_log (basename tag) st buffer' a' b' else []
                         | _ \<Rightarrow> [])"
    by blast
  from pump_loop_no_lock_call [OF _ p] have "list_all (\<lambda>x. \<not> lock_call x) tr'" by simp
  with t show ?thesis by (cases e) (simp_all add: final_log_no_lock_call)
qed

lemma lock_at_polls_append:
  "list_all (\<lambda>x. \<not> lock_call x) acts \<Longrightarrow>
   lock_at_polls held (acts @ rest) = lock_at_polls held acts @ lock_at_polls held rest"
  by (induction held acts rule: lock_at_polls.induct) auto

lemma lock_at_polls_same:
  "list_all (\<lambda>x. \<not> lock_call x) acts \<Longrightarrow> list_all (\<lambda>h. h = held) (lock_at_polls held acts)"
  by (induction held acts rule: lock_at_polls.induct) auto

lemma launch_in_parent:
  assumes "setup_succeeds env" and "0 < fork_result env"
  shows "android_fork_execvp argv status ignore_int_quit logwrap env =
     (case parent (argv0 argv) (fork_result env) status logwrap
             (stack_junk env) (child_output env) (answers env) of
        None \<Rightarrow> None
      | Some (rc, slot, pending, acts) \<Rightarrow>
          Some (Returned rc slot,
                ([MutexLock 0, Open ''/dev/ptmx'' (ptmx_result env), Grantpt 0, Unlockpt 0,
                  Ptsname (ptsname_result env), Open (the (ptsname_result env)) (pts_result env),
                  SigmaskBlock, Fork (fork_result env), Close (pts_result env)]
                 @ (if ignore_int_quit
                    then [SigactionIgnore SIGINT, SigactionIgnore SIGQUIT] else []))
                @ acts
                @ ((if ignore_int_quit
                    then [SigactionRestore SIGINT, SigactionRestore SIGQUIT] else [])
                   @ [SigmaskRestore, Close (ptmx_result env)])
                @ [MutexUnlock]))"
proof -
  from assms(1) obtain name where n: "ptsname_result env = Some name"
    by (auto simp: setup_succeeds_def)
  from assms(1) have ok: "lock_result env = 0" "\<not> ptmx_result env < 0" "grantpt_result env = 0"
    "unlockpt_result env = 0" "\<not> pts_result env < 0"
    by (simp_all add: setup_succeeds_def)
  from assms(2) have f: "\<not> fork_result env < 0" "fork_result env \<noteq> 0" by simp_all
  show ?thesis
    unfolding android_fork_execvp_def ptmx_setup_def
    by (simp only: ok f n if_True if_False split: option.split prod.split) simp
qed

lemma launch_in_child:
  assumes "setup_succeeds env" and "fork_result env = 0"
  shows "android_fork_execvp argv status ignore_int_quit logwrap env =
     Some (fst (child argv (execvp_fails env)),
           [MutexLock 0, Open ''/dev/ptmx'' (ptmx_result env), Grantpt 0, Unlockpt 0,
            Ptsname (ptsname_result env), Open (the (ptsname_result env)) (pts_result env),
            SigmaskBlock]
           @ Fork 0 # MutexUnlock #
             ([SigmaskRestore, Close (ptmx_result env), Dup2 (pts_result env) 1,
               Dup2 (pts_result env) 2, Close (pts_result env)]
              @ snd (child argv (execvp_fails env))))"
proof -
  from assms(1) obtain name where n: "ptsname_result env = Some name"
    by (auto simp: setup_succeeds_def)
  from assms(1) have ok: "lock_result env = 0" "\<not> ptmx_result env < 0" "grantpt_result env = 0"
    "unlockpt_result env = 0" "\<not> pts_result env < 0"
    by (simp_all add: setup_succeeds_def)
  from assms(2) have f: "\<not> fork_result env < 0" by simp
  show ?thesis
    unfolding android_fork_execvp_def ptmx_setup_def
    by (simp only: ok f n assms(2) if_True if_False split: prod.split)
       (simp add: split_beta)
qed

text \<open>
  C1 as stated fails in the parent: \<^verbatim>\<open>fd_mutex\<close> is held at every \<^verbatim>\<open>poll\<close> of the loop and
  is released only after \<^verbatim>\<open>parent\<close> has returned.
\<close>

theorem lock_during_pump_counterexample:
  "android_fork_execvp [''/bin/echo''] None False True
     (launch_ok (''hi'' @ [LF])
        [Ready (Some (ReadReturns 3)) None, Ready None (Some (WaitReaped 0))])
   = Some (Returned 0 None,
           [MutexLock 0, Open ''/dev/ptmx'' 5, Grantpt 0, Unlockpt 0,
            Ptsname (Some ''/dev/pts/3''), Open ''/dev/pts/3'' 6, SigmaskBlock, Fork 42,
            Close 6, Poll 1, Read 3, ALOG LOG_INFO ''echo'' (Captured AtNewline ''hi''),
            Poll 1, Waitpid 42, SigmaskRestore, Close 5, MutexUnlock])
   \<and> lock_at_polls False
         [MutexLock 0, Open ''/dev/ptmx'' 5, Grantpt 0, Unlockpt 0,
          Ptsname (Some ''/dev/pts/3''), Open ''/dev/pts/3'' 6, SigmaskBlock, Fork 42,
          Close 6, Poll 1, Read 3, ALOG LOG_INFO ''echo'' (Captured AtNewline ''hi''),
          Poll 1, Waitpid 42, SigmaskRestore, Close 5, MutexUnlock]
       = [True, True]"
  by (simp add: launch_defs run_defs)

text \<open>
  C1, amended. After a set-up that succeeds: in the child the lock is released right
  after \<^verbatim>\<open>fork\<close> returns; in the parent the lock is held at every \<^verbatim>\<open>poll\<close> of the loop and
  released once, as the last action before the call returns.
\<close>

theorem lock_released:
  assumes "setup_succeeds env"
  shows "(fork_result env = 0 \<longrightarrow>
            (\<exists>res pre post. android_fork_execvp argv status ignore_int_quit logwrap env
                              = Some (res, pre @ Fork 0 # MutexUnlock # post)
                            \<and> MutexUnlock \<notin> set pre))
       \<and> (0 < fork_result env \<longrightarrow>
            (\<forall>res tr. android_fork_execvp argv status ignore_int_quit logwrap env = Some (res, tr) \<longrightarrow>
               (\<exists>acts. tr = acts @ [MutexUnlock] \<and> MutexUnlock \<notin> set acts)
               \<and> list_all (\<lambda>held. held) (lock_at_polls False tr)))"
proof (intro conjI impI allI)
  assume f: "fork_result env = 0"
  have "MutexUnlock \<notin> set [MutexLock 0, Open ''/dev/ptmx'' (ptmx_result env), Grantpt 0, Unlockpt 0,
                    Ptsname (ptsname_result env), Open (the (ptsname_result env)) (pts_result env),
                    SigmaskBlock]" by simp
  with launch_in_child [OF assms f, of argv status ignore_int_quit logwrap]
  show "\<exists>res pre post. android_fork_execvp argv status ignore_int_quit logwrap env
                              = Some (res, pre @ Fork 0 # MutexUnlock # post)
                            \<and> MutexUnlock \<notin> set pre"
    by blast
next
  fix res tr
  assume f: "0 < fork_result env"
    and r: "android_fork_execvp argv status ignore_int_quit logwrap env = Some (res, tr)"
  let ?pre = "[MutexLock 0, Open ''/dev/ptmx'' (ptmx_result env), Grantpt 0, Unlockpt 0,
               Ptsname (ptsname_result env), Open (the (ptsname_result env)) (pts_result env),
               SigmaskBlock, Fork (fork_result env), Close (pts_result env)]
              @ (if ignore_int_quit then [SigactionIgnore SIGINT, SigactionIgnore SIGQUIT] else [])"
  let ?post = "(if ignore_int_quit then [SigactionRestore SIGINT, SigactionRestore SIGQUIT] else [])
               @ [SigmaskRestore, Close (ptmx_result env)]"
  from r launch_in_parent [OF assms f, of argv status ignore_int_quit logwrap]
  obtain rc slot pending acts where
    p: "parent (argv0 argv) (fork_result env) status logwrap (stack_junk env) (child_output env)
          (answers env) = Some (rc, slot, pending, acts)"
    and tr: "tr = ?pre @ acts @ ?post @ [MutexUnlock]"
    by (auto split: option.splits)
  from parent_no_lock_call [OF p] have nl: "list_all (\<lambda>x. \<not> lock_call x) acts" .
  then have "MutexUnlock \<notin> set acts" by (auto simp: list_all_iff)
  with tr have "tr = (?pre @ acts @ ?post) @ [MutexUnlock] \<and> MutexUnlock \<notin> set (?pre @ acts @ ?post)"
    by simp
  then show "\<exists>acts. tr = acts @ [MutexUnlock] \<and> MutexUnlock \<notin> set acts" by blast
  have "lock_at_polls False tr = lock_at_polls True (acts @ ?post @ [MutexUnlock])"
    unfolding tr by simp
  also have "\<dots> = lock_at_polls True acts @ lock_at_polls True (?post @ [MutexUnlock])"
    by (rule lock_at_polls_append [OF nl])
  also have "lock_at_polls True (?post @ [MutexUnlock]) = []" by simp
  finally have "lock_at_polls False tr = lock_at_polls True acts" by simp
  with lock_at_polls_same [OF nl, of True]
  show "list_all (\<lambda>held. held) (lock_at_polls False tr)" by (simp add: list_all_iff)
qed

theorem lock_released_witness:
  "setup_succeeds (launch_ok (''hi'' @ [LF]) [Ready (Some (ReadReturns 3)) None, Ready None (Some (WaitReaped 0))])
   \<and> list_all (\<lambda>held. held) (lock_at_polls False (snd (the
        (android_fork_execvp [''/bin/echo''] None False True
           (launch_ok (''hi'' @ [LF]) [Ready (Some (ReadReturns 3)) None, Ready None (Some (WaitReaped 0))])))))
   \<and> lock_at_polls False (snd (the
        (android_fork_execvp [''/bin/echo''] None False True
           (launch_ok (''hi'' @ [LF]) [Ready (Some (ReadReturns 3)) None, Ready None (Some (WaitReaped 0))]))))
       = [True, True]
   \<and> (\<exists>res pre post. android_fork_execvp [''/bin/echo''] None False True
            (launch_ok [] [] \<lparr>fork_result := 0\<rparr>) = Some (res, pre @ Fork 0 # MutexUnlock # post)
          \<and> MutexUnlock \<notin> set pre)"
proof -
  let ?env = "launch_ok (''hi'' @ [LF]) [Ready (Some (ReadReturns 3)) None, Ready None (Some (WaitReaped 0))]"
  have s: "setup_succeeds ?env" "0 < fork_result ?env"
    by (simp_all add: setup_succeeds_def launch_ok_def)
  have e: "android_fork_execvp [''/bin/echo''] None False True ?env = Some (Returned 0 None,
           [MutexLock 0, Open ''/dev/ptmx'' 5, Grantpt 0, Unlockpt 0,
            Ptsname (Some ''/dev/pts/3''), Open ''/dev/pts/3'' 6, SigmaskBlock, Fork 42,
            Close 6, Poll 1, Read 3, ALOG LOG_INFO ''echo'' (Captured AtNewline ''hi''),
            Poll 1, Waitpid 42, SigmaskRestore, Close 5, MutexUnlock])"
    by (simp add: launch_defs run_defs)
  have s0: "setup_succeeds (launch_ok [] [] \<lparr>fork_result := 0\<rparr>)" "fork_result (launch_ok [] [] \<lparr>fork_result := 0\<rparr>) = 0"
    by (simp_all add: setup_succeeds_def launch_ok_def)
  from lock_released [OF s(1), of "[''/bin/echo'']" None False True] s(2) e
  have 1: "list_all (\<lambda>held. held) (lock_at_polls False (snd (the
        (android_fork_execvp [''/bin/echo''] None False True ?env))))"
    by simp
  from lock_released [OF s0(1), of "[''/bin/echo'']" None False True] s0(2)
  have 2: "\<exists>res pre post. android_fork_execvp [''/bin/echo''] None False True
            (launch_ok [] [] \<lparr>fork_result := 0\<rparr>) = Some (res, pre @ Fork 0 # MutexUnlock # post)
          \<and> MutexUnlock \<notin> set pre"
    by blast
  have 3: "lock_at_polls False (snd (the
        (android_fork_execvp [''/bin/echo''] None False True ?env))) = [True, True]"
    unfolding e by simp
  from s(1) 1 2 3 show ?thesis by blast
qed

subsection \<open>The scan, on lists\<close>

lemma scan_done: "sz \<le> int b \<Longrightarrow> scan logwrap btag sz buffer a b tr = (buffer, a, b, tr)"
  by (subst scan.simps) simp

lemma takeWhile_stop: "\<not> P y \<Longrightarrow> takeWhile P (xs @ y # ys) = takeWhile P xs"
  by (induction xs) auto

lemma cstring_stop:
  "a \<le> length pre \<Longrightarrow> cstring (pre @ NUL # rest) a = takeWhile (\<lambda>c. c \<noteq> NUL) (drop a pre)"
  by (simp add: cstring_def takeWhile_stop)

lemma scan_list:
  "a \<le> length pre \<Longrightarrow>
   scan logwrap btag (int (length pre + length xs)) (pre @ xs @ post) a (length pre) tr =
     (pre @ map nul xs @ post,
      length pre + length xs - length (scan_rest (drop a pre) xs),
      length pre + length xs,
      tr @ (if logwrap
            then map (\<lambda>l. ALOG LOG_INFO btag (Captured AtNewline l)) (scan_lines (drop a pre) xs)
            else []))"
proof (induction xs arbitrary: pre a tr)
  case Nil
  then show ?case by (simp add: scan_done)
next
  case (Cons c cs)
  have step: "scan logwrap btag (int (length pre + length (c # cs))) (pre @ (c # cs) @ post) a (length pre) tr =
     (if c = CR then
        scan logwrap btag (int (length (pre @ [NUL]) + length cs)) ((pre @ [NUL]) @ cs @ post) a (length (pre @ [NUL])) tr
      else if c = LF then
        scan logwrap btag (int (length (pre @ [NUL]) + length cs)) ((pre @ [NUL]) @ cs @ post)
          (length (pre @ [NUL])) (length (pre @ [NUL]))
          (if logwrap
           then tr @ [ALOG LOG_INFO btag (Captured AtNewline (takeWhile (\<lambda>c. c \<noteq> NUL) (drop a pre)))]
           else tr)
      else scan logwrap btag (int (length (pre @ [c]) + length cs)) ((pre @ [c]) @ cs @ post) a (length (pre @ [c])) tr)"
    using Cons.prems
    by (subst scan.simps) (simp add: nth_append list_update_append cstring_stop)
  show ?case
  proof (cases "c = CR")
    case True
    from Cons.prems have "a \<le> length (pre @ [NUL])" by simp
    from Cons.IH [OF this, of tr] True Cons.prems show ?thesis
      unfolding step by (simp add: nul_def)
  next
    case notcr: False
    show ?thesis
    proof (cases "c = LF")
      case True
      have "length (pre @ [NUL]) \<le> length (pre @ [NUL])" by simp
      from Cons.IH [OF this] True notcr show ?thesis
        unfolding step by (simp add: nul_def)
    next
      case False
      from Cons.prems have "a \<le> length (pre @ [c])" by simp
      from Cons.IH [OF this, of tr] False notcr Cons.prems show ?thesis
        unfolding step by (simp add: nul_def)
    qed
  qed
qed

lemma scan_from_start:
  "scan logwrap btag (int (length xs)) (xs @ post) 0 0 tr =
     (map nul xs @ post, length xs - length (scan_rest [] xs), length xs,
      tr @ (if logwrap
            then map (\<lambda>l. ALOG LOG_INFO btag (Captured AtNewline l)) (scan_lines [] xs)
            else []))"
  using scan_list [of 0 "[]" logwrap btag xs post tr] by simp

lemma scan_rest_suffix: "\<exists>p. cur @ map nul xs = p @ scan_rest cur xs"
proof (induction xs arbitrary: cur)
  case Nil
  show ?case by simp
next
  case (Cons c cs)
  show ?case
  proof (cases "c = LF")
    case True
    from Cons.IH [of "[]"] obtain p where "map nul cs = p @ scan_rest [] cs" by auto
    then have "cur @ map nul (c # cs) = (cur @ [nul c] @ p) @ scan_rest cur (c # cs)"
      using True by simp
    then show ?thesis by blast
  next
    case False
    from Cons.IH [of "cur @ [nul c]"] False show ?thesis by (auto simp: nul_def)
  qed
qed

lemma scan_rest_length: "length (scan_rest cur xs) \<le> length cur + length xs"
proof -
  from scan_rest_suffix [of cur xs] obtain p where "cur @ map nul xs = p @ scan_rest cur xs" by blast
  then have "length (cur @ map nul xs) = length (p @ scan_rest cur xs)" by simp
  then show ?thesis by simp
qed

lemma scan_rest_drop:
  "drop (length xs - length (scan_rest [] xs)) (map nul xs) = scan_rest [] xs"
proof -
  from scan_rest_suffix [of "[]" xs] obtain p where p: "map nul xs = p @ scan_rest [] xs" by auto
  then have "length xs = length p + length (scan_rest [] xs)"
    by (metis length_append length_map)
  then have "length xs - length (scan_rest [] xs) = length p" by simp
  with p show ?thesis by simp
qed

subsection \<open>Pieces of the stream\<close>

lemma finished_append:
  "finished cur (xs @ ys) = finished cur xs @ finished (unfinished cur xs) ys"
  by (induction xs arbitrary: cur) auto

lemma unfinished_append:
  "unfinished cur (xs @ ys) = unfinished (unfinished cur xs) ys"
  by (induction xs arbitrary: cur) auto

lemma unfinished_no_LF: "LF \<notin> set cur \<Longrightarrow> LF \<notin> set (unfinished cur xs)"
  by (induction xs arbitrary: cur) auto

lemma unfinished_short:
  "length cur < sizeof_buffer - 1 \<Longrightarrow> length (unfinished cur xs) < sizeof_buffer - 1"
  by (induction xs arbitrary: cur) (auto simp: sizeof_buffer_def)

lemma nul_clean: "CR \<notin> set (map nul xs) \<and> LF \<notin> set (map nul xs)"
  by (induction xs) (auto simp: nul_def)

lemma scan_clean:
  "CR \<notin> set xs \<Longrightarrow> LF \<notin> set xs \<Longrightarrow>
   scan_lines cur (xs @ ys) = scan_lines (cur @ xs) ys \<and>
   scan_rest cur (xs @ ys) = scan_rest (cur @ xs) ys"
  by (induction xs arbitrary: cur) auto

lemma map_nul_clean: "CR \<notin> set xs \<Longrightarrow> LF \<notin> set xs \<Longrightarrow> map nul xs = xs"
  by (induction xs) (auto simp: nul_def)

lemma shown_stored:
  "LF \<notin> set cur \<Longrightarrow> takeWhile (\<lambda>c. c \<noteq> NUL) (map nul cur) = shown cur"
  by (induction cur) (auto simp: shown_def nul_def)

lemma feed_step:
  "length cur < sizeof_buffer - 1 \<Longrightarrow> length cur + length d \<le> sizeof_buffer - 1 \<Longrightarrow>
   LF \<notin> set cur \<Longrightarrow>
   (length (scan_rest (map nul cur) d) = sizeof_buffer - 1 \<longrightarrow>
      finished cur d = [(AtBufferFull, takeWhile (\<lambda>c. c \<noteq> NUL) (scan_rest (map nul cur) d))]
      \<and> unfinished cur d = [])
   \<and> (length (scan_rest (map nul cur) d) \<noteq> sizeof_buffer - 1 \<longrightarrow>
      finished cur d = map (Pair AtNewline) (scan_lines (map nul cur) d)
      \<and> map nul (unfinished cur d) = scan_rest (map nul cur) d)"
proof (induction d arbitrary: cur)
  case Nil
  then show ?case by simp
next
  case (Cons c cs)
  show ?case
  proof (cases "c = LF")
    case True
    have "length (scan_rest [] cs) \<le> length cs" using scan_rest_length [of "[]" cs] by simp
    with Cons.prems have ne: "length (scan_rest [] cs) \<noteq> sizeof_buffer - 1" by simp
    from Cons.prems have "length ([]::char list) < sizeof_buffer - 1"
      "length ([]::char list) + length cs \<le> sizeof_buffer - 1" by simp_all
    from Cons.IH [OF this] ne True Cons.prems(3) show ?thesis
      by (simp add: shown_stored)
  next
    case notlf: False
    have app: "map nul cur @ [nul c] = map nul (cur @ [c])" by simp
    have sr: "scan_rest (map nul cur) (c # cs) = scan_rest (map nul (cur @ [c])) cs"
      and sl: "scan_lines (map nul cur) (c # cs) = scan_lines (map nul (cur @ [c])) cs"
      using notlf by (auto simp: nul_def)
    show ?thesis
    proof (cases "length cur + 1 = sizeof_buffer - 1")
      case True
      with Cons.prems(2) have "length cs = 0" by (simp add: sizeof_buffer_def)
      then have "cs = []" by simp
      with True notlf Cons.prems(3) show ?thesis
        unfolding sr sl by (simp add: shown_stored del: map_append)
    next
      case False
      with Cons.prems have "length (cur @ [c]) < sizeof_buffer - 1"
        "length (cur @ [c]) + length cs \<le> sizeof_buffer - 1" "LF \<notin> set (cur @ [c])"
        using notlf by simp_all
      from Cons.IH [OF this] False notlf show ?thesis
        unfolding sr sl by simp
    qed
  qed
qed

subsection \<open>One read\<close>

lemma read_count_in_range: "b \<le> sizeof_buffer - 1 \<Longrightarrow> read_count b = sizeof_buffer - 1 - b"
  by (simp add: read_count_def sizeof_buffer_def)

lemma scan_lines_length:
  "length (scan_rest cur xs) + length (scan_lines cur xs) \<le> length cur + length xs"
proof (induction xs arbitrary: cur)
  case Nil
  show ?case by simp
next
  case (Cons c cs)
  from Cons.IH [of "cur @ [NUL]"] Cons.IH [of "[]"] Cons.IH [of "cur @ [c]"]
  show ?case by auto
qed

lemma scan_rest_whole:
  assumes "length (scan_rest [] xs) = length xs"
  shows "scan_rest [] xs = map nul xs" and "scan_lines [] xs = []"
proof -
  from scan_rest_drop [of xs] assms show "scan_rest [] xs = map nul xs" by simp
  from scan_lines_length [of "[]" xs] assms show "scan_lines [] xs = []" by simp
qed

lemma readable_step:
  fixes buffer frag pending :: "char list" and a b n :: nat
  assumes h: "at_head buffer a b frag"
  defines "d \<equiv> take (min n (sizeof_buffer - 1 - b)) pending"
  shows "\<exists>buffer' b'.
           readable logwrap btag (ReadReturns n) buffer a b pending tr =
             (buffer', 0, b', drop (min n (sizeof_buffer - 1 - b)) pending,
              tr @ Read (int (length d)) #
                (if logwrap then map (logged btag) (finished frag d) else []))
           \<and> at_head buffer' 0 b' (unfinished frag d)"
proof -
  from h have a: "a = 0" and b: "b = length frag" and short: "length frag < sizeof_buffer - 1"
    and len: "length buffer = sizeof_buffer" and pre: "take b buffer = map nul frag"
    and nolf: "LF \<notin> set frag"
    by (auto simp: at_head_def)
  define xs where "xs = map nul frag @ d"
  define post where "post = drop (b + length d) buffer"
  define m where "m = length xs"
  define r where "r = scan_rest (map nul frag) d"
  define ls where "ls = scan_lines (map nul frag) d"
  have dlen: "length d \<le> sizeof_buffer - 1 - b" by (simp add: d_def)
  with b short have m_le: "m \<le> sizeof_buffer - 1" and m_eq: "m = b + length d"
    by (auto simp: m_def xs_def)
  from b short have "b \<le> sizeof_buffer - 1" by simp
  then have rc: "read_count b = sizeof_buffer - 1 - b" by (rule read_count_in_range)
  have rd: "sys_read (ReadReturns n) (read_count b) pending
              = (int (length d), d, drop (min n (sizeof_buffer - 1 - b)) pending)"
    by (simp add: sys_read_def rc d_def Let_def)
  have st: "store buffer b d = xs @ post"
    by (simp add: store_def pre xs_def post_def)
  have post_len: "length post = sizeof_buffer - m"
    using len m_eq by (simp add: post_def)
  have r_eq: "scan_rest [] xs = r" and ls_eq: "scan_lines [] xs = ls"
    using scan_clean [of "map nul frag" "[]" d] nul_clean [of frag]
    by (simp_all add: xs_def r_def ls_def)
  have r_le: "length r \<le> m"
    using scan_rest_length [of "[]" xs] r_eq by (simp add: m_def)
  have sc: "scan logwrap btag (int (length d) + int b) (store buffer b d) a 0 (tr @ [Read (int (length d))])
              = (map nul xs @ post, m - length r, m,
                 (tr @ [Read (int (length d))]) @
                 (if logwrap then map (\<lambda>l. ALOG LOG_INFO btag (Captured AtNewline l)) ls else []))"
  proof -
    have "int (length d) + int b = int (length xs)" using m_eq by (simp add: m_def)
    then show ?thesis
      unfolding st a using scan_from_start [of logwrap btag xs post "tr @ [Read (int (length d))]"]
      by (simp add: r_eq ls_eq m_def)
  qed
  have drop_r: "drop (m - length r) (map nul xs) = r"
    using scan_rest_drop [of xs] by (simp add: r_eq m_def)
  from short b dlen have fs: "length frag < sizeof_buffer - 1"
    "length frag + length d \<le> sizeof_buffer - 1" by simp_all
  note fstep = feed_step [OF fs nolf, folded r_def ls_def]
  show ?thesis
  proof (cases "length r = sizeof_buffer - 1")
    case True
    with r_le m_le have m: "m = sizeof_buffer - 1" by simp
    with True have whole: "length (scan_rest [] xs) = length xs" by (simp add: r_eq m_def)
    from scan_rest_whole [OF whole] have r_all: "r = map nul xs" and no_ls: "ls = []"
      by (simp_all add: r_eq ls_eq)
    from True fstep have fin: "finished frag d = [(AtBufferFull, takeWhile (\<lambda>c. c \<noteq> NUL) r)]"
      and unf: "unfinished frag d = []" by simp_all
    from post_len m have "length post = 1" by (simp add: sizeof_buffer_def)
    then obtain p where post1: "post = [p]" by (cases post) auto
    have upd: "(map nul xs @ post)[sizeof_buffer - 1 := NUL] = map nul xs @ [NUL]"
      using m post1 by (simp add: list_update_append m_def)
    have cs: "cstring (map nul xs @ [NUL]) 0 = takeWhile (\<lambda>c. c \<noteq> NUL) r"
      using cstring_stop [of 0 "map nul xs" "[]"] by (simp add: r_all)
    have res: "readable logwrap btag (ReadReturns n) buffer a b pending tr =
             (map nul xs @ [NUL], 0, 0, drop (min n (sizeof_buffer - 1 - b)) pending,
              tr @ Read (int (length d)) #
                (if logwrap then map (logged btag) (finished frag d) else []))"
      unfolding readable_def rd using upd cs
      by (simp add: sc True m no_ls fin logged_def)
    have "at_head (map nul xs @ [NUL]) 0 0 (unfinished frag d)"
      using m by (simp add: at_head_def unf m_def sizeof_buffer_def)
    with res show ?thesis by blast
  next
    case False
    with fstep have fin: "finished frag d = map (Pair AtNewline) ls"
      and unf: "map nul (unfinished frag d) = r" by simp_all
    from False r_le m_le have nofl: "\<not> (m - length r = 0 \<and> m = sizeof_buffer - 1)" by auto
    have ulen: "length (unfinished frag d) = length r"
      using unf by (metis length_map)
    have tr_eq: "(tr @ [Read (int (length d))]) @
                 (if logwrap then map (\<lambda>l. ALOG LOG_INFO btag (Captured AtNewline l)) ls else [])
               = tr @ Read (int (length d)) #
                (if logwrap then map (logged btag) (finished frag d) else [])"
      by (simp add: fin logged_def comp_def)
    define buffer' where "buffer' = (if m - length r \<noteq> m
        then memmove (map nul xs @ post) (m - length r) (m - (m - length r))
        else map nul xs @ post)"
    have r0: "m - length r = m \<Longrightarrow> length r = 0" using r_le by arith
    have b'_eq: "(if m - length r \<noteq> m then m - (m - length r) else 0) = length r"
      using r_le r0 by (cases "m - length r = m") simp_all
    have res: "readable logwrap btag (ReadReturns n) buffer a b pending tr =
             (buffer', 0, length r, drop (min n (sizeof_buffer - 1 - b)) pending,
              tr @ Read (int (length d)) #
                (if logwrap then map (logged btag) (finished frag d) else []))"
      unfolding readable_def rd using nofl b'_eq
      by (auto simp: sc tr_eq [symmetric] buffer'_def)
    have blen: "length buffer' = sizeof_buffer"
      using r_le m_le post_len by (auto simp: buffer'_def memmove_def m_def)
    have btake: "take (length r) buffer' = r"
    proof (cases "m - length r \<noteq> m")
      case True
      have "m - (m - length r) = length r" using r_le by simp
      moreover have "take (length r) (drop (m - length r) (map nul xs @ post)) = r"
        using drop_r r_le by (simp add: m_def)
      ultimately show ?thesis using True by (simp add: buffer'_def memmove_def)
    next
      case False
      with r0 have "length r = 0" by simp
      then show ?thesis by simp
    qed
    have "at_head buffer' 0 (length r) (unfinished frag d)"
      using unfinished_short [OF short, of d] unfinished_no_LF [OF nolf, of d]
      by (simp add: at_head_def ulen blen btake unf)
    with res show ?thesis by blast
  qed
qed

subsection \<open>The head of the loop\<close>

lemma loop_head_at_head: "loop_head buffer a b \<Longrightarrow> at_head buffer a b (take b buffer)"
  by (auto simp: loop_head_def at_head_def map_nul_clean sizeof_buffer_def)

lemma at_head_loop_head: "at_head buffer a b frag \<Longrightarrow> loop_head buffer a b"
  using nul_clean [of frag] by (auto simp: loop_head_def at_head_def)

lemma loop_head_in_bounds: "loop_head buffer a b \<Longrightarrow> in_bounds buffer a b"
  by (auto simp: loop_head_def in_bounds_def)

lemma loop_head_start: "loop_head (uninitialised junk) 0 0"
  by (simp add: loop_head_def uninitialised_def sizeof_buffer_def)

lemma scan_clean_nothing:
  "CR \<notin> set xs \<Longrightarrow> LF \<notin> set xs \<Longrightarrow> scan_rest [] xs = xs \<and> scan_lines [] xs = []"
  using scan_clean [of xs "[]" "[]"] by simp

lemma readable_fails:
  assumes "loop_head buffer a b"
  shows "readable logwrap btag ReadFails buffer a b pending tr
           = (buffer, 0, b - 1, pending, tr @ [Read (- 1)])"
proof -
  from assms have a: "a = 0" and b: "b < sizeof_buffer - 1" and len: "length buffer = sizeof_buffer"
    and clean: "CR \<notin> set (take b buffer)" "LF \<notin> set (take b buffer)"
    by (auto simp: loop_head_def)
  have rd: "sys_read ReadFails (read_count b) pending = (- 1, [], pending)"
    by (simp add: sys_read_def)
  have st: "store buffer b [] = buffer" by (simp add: store_def)
  define xs where "xs = take (b - 1) buffer"
  have "set xs \<subseteq> set (take b buffer)"
    unfolding xs_def by (metis diff_le_self set_take_subset_set_take)
  with clean have cl: "CR \<notin> set xs" "LF \<notin> set xs" by auto
  have xl: "length xs = b - 1" using b len by (simp add: xs_def)
  have sc: "scan logwrap btag (- 1 + int b) buffer a 0 (tr @ [Read (- 1)])
              = (buffer, 0, b - 1, tr @ [Read (- 1)])"
  proof (cases "b = 0")
    case True
    then show ?thesis using a by (simp add: scan_done)
  next
    case False
    then have sz: "- 1 + int b = int (length xs)" using xl by simp
    have buf: "buffer = xs @ drop (b - 1) buffer" by (simp add: xs_def)
    from scan_from_start [of logwrap btag xs "drop (b - 1) buffer" "tr @ [Read (- 1)]"]
    show ?thesis
      unfolding sz a using scan_clean_nothing [OF cl] map_nul_clean [OF cl] xl buf by simp
  qed
  have mm: "memmove buffer 0 (b - 1) = buffer" by (simp add: memmove_def)
  from b have "b - 1 \<noteq> sizeof_buffer - 1" by simp
  with sc mm st show ?thesis
    by (simp add: readable_def rd)
qed

lemma readable_nothing:
  assumes "loop_head buffer a b" and "n = 0 \<or> pending = []"
  shows "readable logwrap btag (ReadReturns n) buffer a b pending tr
           = (buffer, 0, b, pending, tr @ [Read 0])"
proof -
  from assms(1) have a: "a = 0" and b: "b < sizeof_buffer - 1" and len: "length buffer = sizeof_buffer"
    and clean: "CR \<notin> set (take b buffer)" "LF \<notin> set (take b buffer)"
    by (auto simp: loop_head_def)
  from assms(2) have rd: "sys_read (ReadReturns n) (read_count b) pending = (0, [], pending)"
    by (auto simp: sys_read_def)
  have st: "store buffer b [] = buffer" by (simp add: store_def)
  define xs where "xs = take b buffer"
  have xl: "length xs = b" using b len by (simp add: xs_def)
  have buf: "buffer = xs @ drop b buffer" by (simp add: xs_def)
  have sc: "scan logwrap btag (0 + int b) buffer a 0 (tr @ [Read 0]) = (buffer, 0, b, tr @ [Read 0])"
    using scan_from_start [of logwrap btag xs "drop b buffer" "tr @ [Read 0]"]
      scan_clean_nothing [OF clean [folded xs_def]] map_nul_clean [OF clean [folded xs_def]] xl buf a
    by simp
  have mm: "memmove buffer 0 b = buffer" by (simp add: memmove_def)
  from b have "b \<noteq> sizeof_buffer - 1" by simp
  with sc mm st show ?thesis
    by (simp add: readable_def rd)
qed

lemma readable_loop_head:
  assumes "loop_head buffer a b"
    and "readable logwrap btag ev buffer a b pending tr = (buffer', a', b', pending', tr')"
  shows "loop_head buffer' a' b'"
proof (cases ev)
  case ReadFails
  with assms readable_fails [OF assms(1), of logwrap btag pending tr]
  have eq: "buffer' = buffer" "a' = 0" "b' = b - 1" by simp_all
  have "set (take (b - 1) buffer) \<subseteq> set (take b buffer)"
    by (metis diff_le_self set_take_subset_set_take)
  with assms(1) show ?thesis unfolding eq by (auto simp: loop_head_def)
next
  case (ReadReturns n)
  from readable_step [OF loop_head_at_head [OF assms(1)], where n = n and logwrap = logwrap
      and btag = btag and pending = pending and tr = tr] assms(2) ReadReturns
  obtain frag' where "at_head buffer' a' b' frag'" by auto
  then show ?thesis by (rule at_head_loop_head)
qed

lemma turn_loop_head:
  assumes "loop_head buffer a b"
    and "turn logwrap btag pid c buffer a b pending tr = Inl (e, buffer', a', b', pending', tr')
         \<or> turn logwrap btag pid c buffer a b pending tr = Inr (buffer', a', b', pending', tr')"
  shows "loop_head buffer' a' b'"
proof (cases c)
  case PollFails
  with assms show ?thesis by (auto simp: turn_def)
next
  case (Ready r w)
  obtain bu1 a1 b1 p1 t1 where
    st: "(case r of None \<Rightarrow> (buffer, a, b, pending, tr @ [Poll 1])
          | Some ev \<Rightarrow> readable logwrap btag ev buffer a b pending (tr @ [Poll 1]))
         = (bu1, a1, b1, p1, t1)"
    by (metis prod_cases5)
  have "loop_head bu1 a1 b1"
  proof (cases r)
    case None
    with st assms(1) show ?thesis by simp
  next
    case (Some ev)
    with st have "readable logwrap btag ev buffer a b pending (tr @ [Poll 1]) = (bu1, a1, b1, p1, t1)"
      by simp
    from readable_loop_head [OF assms(1) this] show ?thesis .
  qed
  with assms(2) Ready st show ?thesis
    by (auto simp: turn_def split: option.splits wait_ev.splits)
qed

lemma loop_heads_loop_head:
  "loop_head buffer a b \<Longrightarrow>
   (buffer', a', b', pending', tr') \<in> set (loop_heads logwrap btag pid cs buffer a b pending tr) \<Longrightarrow>
   loop_head buffer' a' b'"
proof (induction cs arbitrary: buffer a b pending tr)
  case Nil
  then show ?case by simp
next
  case (Cons c cs)
  show ?case
  proof (cases "turn logwrap btag pid c buffer a b pending tr")
    case (Inl left)
    with Cons.prems show ?thesis by simp
  next
    case (Inr s)
    obtain bu1 a1 b1 p1 t1 where s: "s = (bu1, a1, b1, p1, t1)" by (metis prod_cases5)
    from turn_loop_head [OF Cons.prems(1), of logwrap btag pid c pending tr _ bu1 a1 b1 p1 t1] Inr s
    have h: "loop_head bu1 a1 b1" by simp
    from Cons.prems(2) Inr s have "(buffer', a', b', pending', tr') = (buffer, a, b, pending, tr)
       \<or> (buffer', a', b', pending', tr') \<in> set (loop_heads logwrap btag pid cs bu1 a1 b1 p1 t1)"
      by simp
    with Cons.prems(1) Cons.IH [OF h] show ?thesis by auto
  qed
qed

lemma scan_bounds:
  "a \<le> b \<Longrightarrow> scan logwrap btag sz buffer a b tr = (buffer', a', b', tr') \<Longrightarrow>
   a' \<le> b' \<and> int b' = max (int b) sz \<and> length buffer' = length buffer"
proof (induction logwrap btag sz buffer a b tr rule: scan.induct)
  case (1 logwrap btag sz buffer a b tr)
  show ?case
  proof (cases "int b < sz")
    case False
    with "1.prems" show ?thesis by (simp add: scan_done)
  next
    case True
    with "1.prems"(2) "1.IH" "1.prems"(1) show ?thesis
      by (subst (asm) scan.simps) (auto split: if_splits)
  qed
qed

lemma sys_read_bounds:
  assumes "sys_read ev (read_count b) pending = (ret, bytes, rest)" and "b \<le> sizeof_buffer - 1"
  shows "ret + int b \<le> int (sizeof_buffer - 1) \<and> b + length bytes \<le> sizeof_buffer - 1"
proof (cases ev)
  case ReadFails
  with assms show ?thesis by (auto simp: sys_read_def)
next
  case (ReadReturns n)
  with assms(1) have "ret = int (length bytes)" "length bytes \<le> read_count b"
    by (auto simp: sys_read_def Let_def)
  with read_count_in_range [OF assms(2)] assms(2) show ?thesis by auto
qed

lemma scanned_in_bounds:
  assumes "loop_head buffer a b"
    and "sys_read ev (read_count b) pending = (ret, bytes, rest)"
    and "scan logwrap btag (ret + int b) (store buffer b bytes) a 0 tr0 = (buffer2, a2, b2, tr2)"
  shows "in_bounds buffer2 a2 b2"
proof -
  from assms(1) have a: "a = 0" and b: "b \<le> sizeof_buffer - 1" and len: "length buffer = sizeof_buffer"
    by (auto simp: loop_head_def)
  from sys_read_bounds [OF assms(2) b]
  have r: "ret + int b \<le> int (sizeof_buffer - 1)" and l: "b + length bytes \<le> sizeof_buffer - 1"
    by simp_all
  from l len have sl: "length (store buffer b bytes) = sizeof_buffer"
    by (simp add: store_def sizeof_buffer_def)
  from scan_bounds [OF _ assms(3) [unfolded a]]
  have "a2 \<le> b2" "int b2 = max 0 (ret + int b)" "length buffer2 = length (store buffer b bytes)"
    by simp_all
  with r sl show ?thesis by (auto simp: in_bounds_def)
qed

text \<open>
  C8. In every state in which the head of the loop is reached, from the start of
  \<^verbatim>\<open>parent\<close> and whatever the system answers, \<open>a \<le> b \<le> capacity\<close> holds and the buffer
  has its fixed capacity; from such a state the same holds after the scan of any read,
  and again after the whole block that handles the read (flush, left-overs or reset).
\<close>

theorem line_buffer_invariant:
  assumes "(buffer, a, b, pending, tr) \<in>
             set (loop_heads logwrap btag pid cs (uninitialised junk) 0 0 out [])"
  shows "in_bounds buffer a b
       \<and> (\<forall>ev. case sys_read ev (read_count b) pending of
                  (ret, bytes, rest) \<Rightarrow>
                    (case scan logwrap btag (ret + int b) (store buffer b bytes) a 0
                            (tr @ [Poll 1, Read ret]) of
                       (buffer2, a2, b2, tr2) \<Rightarrow> in_bounds buffer2 a2 b2))
       \<and> (\<forall>ev. case readable logwrap btag ev buffer a b pending (tr @ [Poll 1]) of
                  (buffer3, a3, b3, pending3, tr3) \<Rightarrow> in_bounds buffer3 a3 b3)"
proof -
  from loop_heads_loop_head [OF loop_head_start assms] have h: "loop_head buffer a b" .
  have 1: "in_bounds buffer a b" using h by (rule loop_head_in_bounds)
  have 2: "case sys_read ev (read_count b) pending of
                  (ret, bytes, rest) \<Rightarrow>
                    (case scan logwrap btag (ret + int b) (store buffer b bytes) a 0
                            (tr @ [Poll 1, Read ret]) of
                       (buffer2, a2, b2, tr2) \<Rightarrow> in_bounds buffer2 a2 b2)" for ev
    using scanned_in_bounds [OF h] by (auto split: prod.splits)
  have 3: "case readable logwrap btag ev buffer a b pending (tr @ [Poll 1]) of
                  (buffer3, a3, b3, pending3, tr3) \<Rightarrow> in_bounds buffer3 a3 b3" for ev
    using readable_loop_head [OF h] loop_head_in_bounds by (auto split: prod.splits)
  from 1 2 3 show ?thesis by blast
qed

theorem line_buffer_invariant_witness:
  "(''hi'' @ replicate 4094 NUL, 0, 2, [], [Poll 1, Read 2]) \<in>
     set (loop_heads True ''sh'' 42 [Ready (Some (ReadReturns 2)) None] (uninitialised []) 0 0 ''hi'' [])
   \<and> in_bounds (''hi'' @ replicate 4094 NUL) 0 2"
proof -
  have m: "(''hi'' @ replicate 4094 NUL, 0, 2, [], [Poll 1, Read 2]) \<in>
     set (loop_heads True ''sh'' 42 [Ready (Some (ReadReturns 2)) None] (uninitialised []) 0 0 ''hi'' [])"
    by (simp add: run_defs)
  from line_buffer_invariant [OF m] m show ?thesis by blast
qed

subsection \<open>A read that returns nothing, a read that fails\<close>

text \<open>
  C3 as stated fails: the result of \<^verbatim>\<open>read\<close> is never checked. Here the second read
  fails; the loop goes on, the call ends with the exit code 0 of the child and no error,
  (and of the two bytes kept in the buffer only the first is logged).
\<close>

theorem read_failure_counterexample:
  "parent ''/bin/sh'' 42 None True [] ''ab''
     [Ready (Some (ReadReturns 2)) None, Ready (Some ReadFails) None,
      Ready None (Some (WaitReaped 0))]
   = Some (0, None, [],
           [Poll 1, Read 2, Poll 1, Read (- 1), Poll 1, Waitpid 42,
            ALOG LOG_INFO ''sh'' (Captured AtExit ''a'')])"
  by (simp add: run_defs)

text \<open>
  C3, amended. From every state in which the head of the loop is reached: a read that
  returns 0 (no byte of the output is ready) logs nothing, leaves the buffer and
  both indices as they were, and the loop goes on; a read that fails does not end the
  loop either: nothing is logged, no error is reported, and the loop goes on to the
  next \<^verbatim>\<open>poll\<close>.
\<close>

theorem read_nothing_or_failure:
  assumes "(buffer, a, b, pending, tr) \<in>
             set (loop_heads logwrap btag pid cs (uninitialised junk) 0 0 out [])"
  shows "(\<forall>n. n = 0 \<or> pending = [] \<longrightarrow>
            turn logwrap btag pid (Ready (Some (ReadReturns n)) None) buffer a b pending tr
              = Inr (buffer, a, b, pending, tr @ [Poll 1, Read 0]))
       \<and> (\<exists>buffer' a' b'.
             turn logwrap btag pid (Ready (Some ReadFails) None) buffer a b pending tr
               = Inr (buffer', a', b', pending, tr @ [Poll 1, Read (- 1)]))"
proof -
  from loop_heads_loop_head [OF loop_head_start assms] have h: "loop_head buffer a b" .
  then have a: "a = 0" by (simp add: loop_head_def)
  have "turn logwrap btag pid (Ready (Some (ReadReturns n)) None) buffer a b pending tr
          = Inr (buffer, a, b, pending, tr @ [Poll 1, Read 0])" if "n = 0 \<or> pending = []" for n
    using readable_nothing [OF h that, of logwrap btag "tr @ [Poll 1]"] a
    by (simp add: turn_def)
  moreover have "\<exists>buffer' a' b'.
             turn logwrap btag pid (Ready (Some ReadFails) None) buffer a b pending tr
               = Inr (buffer', a', b', pending, tr @ [Poll 1, Read (- 1)])"
    using readable_fails [OF h, of logwrap btag pending "tr @ [Poll 1]"]
    by (simp add: turn_def)
  ultimately show ?thesis by blast
qed

theorem read_nothing_or_failure_witness:
  "turn True ''sh'' 42 (Ready (Some (ReadReturns 0)) None) (''hi'' @ replicate 4094 NUL) 0 2 [] [Poll 1, Read 2]
           = Inr (''hi'' @ replicate 4094 NUL, 0, 2, [], [Poll 1, Read 2] @ [Poll 1, Read 0])
   \<and> (\<exists>buffer' a' b'.
         turn True ''sh'' 42 (Ready (Some ReadFails) None) (''hi'' @ replicate 4094 NUL) 0 2 [] [Poll 1, Read 2]
               = Inr (buffer', a', b', [], [Poll 1, Read 2] @ [Poll 1, Read (- 1)]))"
proof -
  have m: "(''hi'' @ replicate 4094 NUL, 0, 2, [], [Poll 1, Read 2]) \<in>
     set (loop_heads True ''sh'' 42 [Ready (Some (ReadReturns 2)) None] (uninitialised []) 0 0 ''hi'' [])"
    by (simp add: run_defs)
  from read_nothing_or_failure [OF m] show ?thesis by simp
qed

subsection \<open>The loop logs the pieces of the output it reads\<close>

lemma captured_append: "captured (xs @ ys) = captured xs @ captured ys"
  by (induction xs rule: captured.induct) auto

lemma captured_logged: "captured (map (logged btag) ls) = ls"
  by (induction ls) (auto simp: logged_def)

lemma captured_final_log:
  assumes "at_head buffer a b frag"
  shows "captured (final_log btag st buffer a b)
           = (if frag = [] then [] else [(AtExit, shown frag)])"
proof -
  from assms have a: "a = 0" and b: "b = length frag" and short: "length frag < sizeof_buffer - 1"
    and len: "length buffer = sizeof_buffer" and pre: "take b buffer = map nul frag"
    and nolf: "LF \<notin> set frag"
    by (auto simp: at_head_def)
  from b short len have bl: "b < length buffer" by simp
  then have "buffer[b := NUL] = take b buffer @ NUL # drop (Suc b) buffer"
    by (rule upd_conv_take_nth_drop)
  then have "cstring (buffer[b := NUL]) 0 = takeWhile (\<lambda>c. c \<noteq> NUL) (map nul frag)"
    using cstring_stop [of 0 "take b buffer" "drop (Suc b) buffer"] by (simp add: pre)
  then have cs: "cstring (buffer[b := NUL]) 0 = shown frag" by (simp add: shown_stored [OF nolf])
  have "captured (final_log btag st buffer a b)
          = (if a \<noteq> b then [(AtExit, cstring (buffer[b := NUL]) a)] else [])"
    by (simp add: final_log_def captured_append)
  with a b cs show ?thesis by auto
qed

lemma at_head_start: "at_head (uninitialised junk) 0 0 []"
  by (simp add: at_head_def uninitialised_def sizeof_buffer_def)

subsection \<open>The bytes read, from the answers\<close>

lemma taken_step:
  fixes r :: "read_ev option" and frag pending :: "char list"
  assumes "r \<noteq> Some ReadFails"
  defines "d \<equiv> (case r of Some (ReadReturns n) \<Rightarrow> take (min n (read_count (length frag))) pending
                  | _ \<Rightarrow> [])"
  shows "taken (Ready r w # cs) frag pending =
           d @ (if continues (Ready r w)
                then taken cs (unfinished frag d) (drop (length d) pending) else [])"
proof (cases r)
  case None
  then show ?thesis by (simp add: d_def)
next
  case (Some ev)
  with assms(1) obtain n where "ev = ReadReturns n" by (cases ev) auto
  with Some show ?thesis by (simp add: d_def Let_def)
qed

lemma drop_taken: "drop (length (take k xs)) xs = drop k xs"
  by (cases "k \<le> length xs") (simp_all add: min_def)

lemma turn_reads:
  fixes r :: "read_ev option" and frag pending :: "char list"
  assumes h: "at_head buffer a b frag" and r: "r \<noteq> Some ReadFails"
  defines "d \<equiv> (case r of Some (ReadReturns n) \<Rightarrow> take (min n (read_count (length frag))) pending
                  | _ \<Rightarrow> [])"
  shows "\<exists>buffer' b' tr'.
           (case r of None \<Rightarrow> (buffer, a, b, pending, tr @ [Poll 1])
            | Some ev \<Rightarrow> readable True btag ev buffer a b pending (tr @ [Poll 1]))
             = (buffer', 0, b', drop (length d) pending, tr')
           \<and> pending = d @ drop (length d) pending
           \<and> captured tr' = captured tr @ finished frag d
           \<and> at_head buffer' 0 b' (unfinished frag d)"
proof (cases r)
  case None
  from h have "a = 0" by (simp add: at_head_def)
  with None h show ?thesis by (auto simp: captured_append d_def)
next
  case (Some ev)
  with r obtain n where ev: "ev = ReadReturns n" by (cases ev) auto
  from h have b: "b = length frag" and short: "b \<le> sizeof_buffer - 1" by (auto simp: at_head_def)
  define k where "k = min n (sizeof_buffer - 1 - b)"
  from Some ev b read_count_in_range [OF short] have d: "d = take k pending"
    by (simp add: d_def k_def)
  from readable_step [OF h, where n = n and logwrap = True and btag = btag
      and pending = pending and tr = "tr @ [Poll 1]"]
  obtain buffer' b' where
    res: "readable True btag (ReadReturns n) buffer a b pending (tr @ [Poll 1]) =
             (buffer', 0, b', drop k pending,
              (tr @ [Poll 1]) @ Read (int (length (take k pending))) #
                map (logged btag) (finished frag (take k pending)))"
    and h': "at_head buffer' 0 b' (unfinished frag (take k pending))"
    unfolding k_def by auto
  have "captured ((tr @ [Poll 1]) @ Read (int (length (take k pending))) #
                map (logged btag) (finished frag (take k pending)))
        = captured tr @ finished frag (take k pending)"
    by (simp add: captured_append captured_logged)
  moreover have "drop (length (take k pending)) pending = drop k pending" by (rule drop_taken)
  moreover have "pending = take k pending @ drop k pending" by simp
  ultimately show ?thesis using Some ev res h' unfolding d by (simp only: option.case) metis
qed

lemma pump_taken:
  "at_head buffer a b frag \<Longrightarrow> reaped cs = Some st \<Longrightarrow>
   \<exists>buffer' b' pending' tr'.
     pump_loop True btag pid cs buffer a b pending tr
       = Some (FoundChild st, buffer', 0, b', pending', tr')
     \<and> pending = taken cs frag pending @ pending'
     \<and> captured tr' = captured tr @ finished frag (taken cs frag pending)
     \<and> at_head buffer' 0 b' (unfinished frag (taken cs frag pending))"
proof (induction cs arbitrary: buffer a b frag pending tr)
  case Nil
  then show ?case by simp
next
  case (Cons c cs)
  from Cons.prems(2) obtain r w where c: "c = Ready r w" by (cases c) auto
  from Cons.prems(2) c have r: "r \<noteq> Some ReadFails" by auto
  define d1 where "d1 = (case r of Some (ReadReturns n) \<Rightarrow> take (min n (read_count (length frag))) pending
                         | _ \<Rightarrow> [])"
  define p1 where "p1 = drop (length d1) pending"
  note tk = taken_step [OF r, where frag = frag and pending = pending and w = w and cs = cs,
      folded d1_def, folded p1_def]
  from turn_reads [OF Cons.prems(1) r, where pending = pending and tr = tr and btag = btag,
      folded d1_def, folded p1_def]
  obtain bu1 b1 t1 where
    st: "(case r of None \<Rightarrow> (buffer, a, b, pending, tr @ [Poll 1])
          | Some ev \<Rightarrow> readable True btag ev buffer a b pending (tr @ [Poll 1]))
         = (bu1, 0, b1, p1, t1)"
    and pd: "pending = d1 @ p1"
    and cap: "captured t1 = captured tr @ finished frag d1"
    and h1: "at_head bu1 0 b1 (unfinished frag d1)"
    by blast
  have go_on: ?case
    if t: "turn True btag pid c buffer a b pending tr = Inr (bu1, 0, b1, p1, t1')"
      and t1': "captured t1' = captured t1" and rp: "reaped cs = Some st"
      and co: "continues c" for t1'
  proof -
    from Cons.IH [OF h1 rp, where pending = p1 and tr = t1']
    obtain buffer' b' pending' tr' where
      "pump_loop True btag pid cs bu1 0 b1 p1 t1' = Some (FoundChild st, buffer', 0, b', pending', tr')"
      "p1 = taken cs (unfinished frag d1) p1 @ pending'"
      "captured tr' = captured t1' @ finished (unfinished frag d1) (taken cs (unfinished frag d1) p1)"
      "at_head buffer' 0 b' (unfinished (unfinished frag d1) (taken cs (unfinished frag d1) p1))"
      by blast
    moreover from tk co c have "taken (c # cs) frag pending = d1 @ taken cs (unfinished frag d1) p1"
      by simp
    ultimately have
      "pump_loop True btag pid (c # cs) buffer a b pending tr
         = Some (FoundChild st, buffer', 0, b', pending', tr')
       \<and> pending = taken (c # cs) frag pending @ pending'
       \<and> captured tr' = captured tr @ finished frag (taken (c # cs) frag pending)
       \<and> at_head buffer' 0 b' (unfinished frag (taken (c # cs) frag pending))"
      using t pd cap t1' by (simp add: finished_append unfinished_append)
    then show ?thesis by blast
  qed
  show ?case
  proof (cases w)
    case None
    with c st have "turn True btag pid c buffer a b pending tr = Inr (bu1, 0, b1, p1, t1)"
      by (simp add: turn_def)
    moreover from None c r Cons.prems(2) have "reaped cs = Some st"
      by (cases r; cases "the r") auto
    moreover from None c have "continues c" by simp
    ultimately show ?thesis using go_on by simp
  next
    case (Some wv)
    show ?thesis
    proof (cases wv)
      case (WaitFails errno)
      with Some c r Cons.prems(2) show ?thesis by (cases r; cases "the r") auto
    next
      case WaitRunning
      with Some c st have "turn True btag pid c buffer a b pending tr
          = Inr (bu1, 0, b1, p1, t1 @ [Waitpid 0])"
        by (simp add: turn_def)
      moreover from WaitRunning Some c r Cons.prems(2) have "reaped cs = Some st"
        by (cases r; cases "the r") auto
      moreover have "captured (t1 @ [Waitpid 0]) = captured t1" by (simp add: captured_append)
      moreover from WaitRunning Some c have "continues c" by simp
      ultimately show ?thesis using go_on by simp
    next
      case (WaitReaped status)
      with Some c r Cons.prems(2) have "status = st" by (cases r; cases "the r") auto
      with WaitReaped Some c st have
        "turn True btag pid c buffer a b pending tr
           = Inl (FoundChild st, bu1, 0, b1, p1, t1 @ [Waitpid pid])"
        by (simp add: turn_def)
      moreover have "captured (t1 @ [Waitpid pid]) = captured t1" by (simp add: captured_append)
      moreover from tk WaitReaped Some c have "taken (c # cs) frag pending = d1" by simp
      ultimately have
        "pump_loop True btag pid (c # cs) buffer a b pending tr
           = Some (FoundChild st, bu1, 0, b1, p1, t1 @ [Waitpid pid])
         \<and> pending = taken (c # cs) frag pending @ p1
         \<and> captured (t1 @ [Waitpid pid]) = captured tr @ finished frag (taken (c # cs) frag pending)
         \<and> at_head bu1 0 b1 (unfinished frag (taken (c # cs) frag pending))"
        using pd cap h1 by simp
      then show ?thesis by blast
    qed
  qed
qed

lemma parent_reads:
  assumes "reaped cs = Some st"
  shows "\<exists>pending tr.
           parent tag pid chld_sts True junk out cs
             = Some (if chld_sts \<noteq> None then 0
                     else if WIFEXITED st then WEXITSTATUS st else - ECHILD,
                     if chld_sts \<noteq> None then Some st else None, pending, tr)
           \<and> out = taken cs [] out @ pending \<and> captured tr = reassemble (taken cs [] out)"
proof -
  from pump_taken [OF at_head_start [of junk] assms, where btag = "basename tag" and pid = pid
      and pending = out and tr = "[]"]
  obtain buffer' b' pending' tr' where
    p: "pump_loop True (basename tag) pid cs (uninitialised junk) 0 0 out []
          = Some (FoundChild st, buffer', 0, b', pending', tr')"
    and o: "out = taken cs [] out @ pending'" and c: "captured tr' = finished [] (taken cs [] out)"
    and h: "at_head buffer' 0 b' (unfinished [] (taken cs [] out))"
    by auto
  have "captured (tr' @ final_log (basename tag) st buffer' 0 b') = reassemble (taken cs [] out)"
    by (simp add: captured_append c captured_final_log [OF h] reassemble_def)
  with p o show ?thesis by (simp add: parent_def)
qed

lemma parent_refines:
  assumes "reaped cs = Some st"
  shows "\<exists>d pending tr.
           parent tag pid chld_sts True junk out cs
             = Some (if chld_sts \<noteq> None then 0
                     else if WIFEXITED st then WEXITSTATUS st else - ECHILD,
                     if chld_sts \<noteq> None then Some st else None, pending, tr)
           \<and> out = d @ pending \<and> captured tr = reassemble d"
  using parent_reads [OF assms, of tag pid chld_sts junk out] by blast

subsection \<open>Lines of the output\<close>

lemma restore_simps:
  "restore (AtNewline, l) = l @ [LF]" "restore (AtBufferFull, l) = l" "restore (AtExit, l) = l"
  by (simp_all add: restore_def)

lemma shown_plain: "NUL \<notin> set p \<Longrightarrow> CR \<notin> set p \<Longrightarrow> shown p = p"
  by (induction p) (auto simp: shown_def)

lemma feed_plain:
  "LF \<notin> set p \<Longrightarrow> length cur + length p < sizeof_buffer - 1 \<Longrightarrow>
   finished cur (p @ s) = finished (cur @ p) s \<and> unfinished cur (p @ s) = unfinished (cur @ p) s"
proof (induction p arbitrary: cur)
  case Nil
  show ?case by simp
next
  case (Cons c p)
  from Cons.prems have "LF \<notin> set p" "length (cur @ [c]) + length p < sizeof_buffer - 1"
    by simp_all
  moreover from Cons.prems have "c \<noteq> LF" by auto
  moreover from Cons.prems have "length cur + 1 \<noteq> sizeof_buffer - 1" by simp
  ultimately show ?case using Cons.IH [of "cur @ [c]"] by simp
qed

lemma feed_line:
  assumes "LF \<notin> set p" and "length cur + length p < sizeof_buffer - 1"
  shows "finished cur (p @ LF # s) = (AtNewline, shown (cur @ p)) # finished [] s"
    and "unfinished cur (p @ LF # s) = unfinished [] s"
  using feed_plain [OF assms, of "LF # s"] by simp_all

lemma feed_open:
  assumes "LF \<notin> set p" and "length cur + length p < sizeof_buffer - 1"
  shows "finished cur p = []" and "unfinished cur p = cur @ p"
  using feed_plain [OF assms, of "[]"] by simp_all

lemma feed_full:
  assumes "LF \<notin> set p" and "length cur + length p = sizeof_buffer - 1" and "p \<noteq> []"
  shows "finished cur (p @ s) = (AtBufferFull, shown (cur @ p)) # finished [] s"
    and "unfinished cur (p @ s) = unfinished [] s"
proof -
  from assms(3) have p: "p = butlast p @ [last p]" by simp
  from assms have 1: "LF \<notin> set (butlast p)" by (auto dest: in_set_butlastD)
  from assms(3) obtain k where k: "length p = Suc k" by (cases p) auto
  from assms(2) k have 2: "length cur + length (butlast p) < sizeof_buffer - 1"
    by simp
  from assms(1,3) have 3: "last p \<noteq> LF" by (metis last_in_set)
  from assms(2) k have 4: "length (cur @ butlast p) + 1 = sizeof_buffer - 1"
    by simp
  have "finished cur ((butlast p @ [last p]) @ s) = (AtBufferFull, shown (cur @ butlast p @ [last p])) # finished [] s
      \<and> unfinished cur ((butlast p @ [last p]) @ s) = unfinished [] s"
    using feed_plain [OF 1 2, of "last p # s"] 3 4 by simp
  with p show "finished cur (p @ s) = (AtBufferFull, shown (cur @ p)) # finished [] s"
    and "unfinished cur (p @ s) = unfinished [] s"
    by simp_all
qed

lemma unfinished_set: "set (unfinished cur s) \<subseteq> set cur \<union> set s"
  by (induction s arbitrary: cur) (auto split: if_splits, fastforce+)

lemma feed_round_trip:
  "NUL \<notin> set cur \<Longrightarrow> CR \<notin> set cur \<Longrightarrow> NUL \<notin> set s \<Longrightarrow> CR \<notin> set s \<Longrightarrow>
   concat (map restore (finished cur s)) @ unfinished cur s = cur @ s"
proof (induction s arbitrary: cur)
  case Nil
  show ?case by simp
next
  case (Cons c s)
  from Cons.prems have c: "c \<noteq> NUL" "c \<noteq> CR" and s: "NUL \<notin> set s" "CR \<notin> set s" by auto
  from Cons.prems c have cur': "NUL \<notin> set (cur @ [c])" "CR \<notin> set (cur @ [c])" by auto
  from Cons.IH [of "[]", OF _ _ s] have e: "concat (map restore (finished [] s)) @ unfinished [] s = s"
    by simp
  from Cons.IH [OF cur' s] have n: "concat (map restore (finished (cur @ [c]) s)) @ unfinished (cur @ [c]) s = cur @ c # s"
    by simp
  show ?case
  proof (cases "c = LF")
    case True
    with e Cons.prems show ?thesis by (simp add: restore_simps shown_plain)
  next
    case False
    with e n cur' show ?thesis by (simp add: restore_simps shown_plain)
  qed
qed

lemma reassemble_round_trip:
  assumes "NUL \<notin> set s" and "CR \<notin> set s"
  shows "concat (map restore (reassemble s)) = s"
proof -
  from unfinished_set [of "[]" s] assms
  have "NUL \<notin> set (unfinished [] s)" "CR \<notin> set (unfinished [] s)" by auto
  then have sh: "shown (unfinished [] s) = unfinished [] s" by (rule shown_plain)
  from feed_round_trip [of "[]" s] assms
  have rt: "concat (map restore (finished [] s)) @ unfinished [] s = s" by simp
  show ?thesis
  proof (cases "unfinished [] s = []")
    case True
    with rt show ?thesis by (simp add: reassemble_def)
  next
    case False
    with rt sh show ?thesis by (simp add: reassemble_def restore_simps)
  qed
qed

lemma ends_line: "before = [] \<or> last before = LF \<Longrightarrow> unfinished [] before = []"
proof (cases "before = []")
  case True
  then show ?thesis by simp
next
  case False
  assume "before = [] \<or> last before = LF"
  with False have "before = butlast before @ [LF]" by (metis append_butlast_last_id)
  then have "unfinished [] before = unfinished (unfinished [] (butlast before)) [LF]"
    by (metis unfinished_append)
  then show ?thesis by simp
qed

lemma reassemble_after:
  "unfinished [] before = [] \<Longrightarrow> reassemble (before @ s) = finished [] before @ reassemble s"
  by (simp add: reassemble_def finished_append unfinished_append)

lemma reassemble_line:
  assumes "LF \<notin> set p" and "length p < sizeof_buffer - 1"
  shows "reassemble (p @ LF # s) = (AtNewline, shown p) # reassemble s"
  using feed_line [of p "[]" s] assms by (simp add: reassemble_def)

lemma reassemble_full:
  assumes "LF \<notin> set p" and "length p = sizeof_buffer - 1"
  shows "reassemble (p @ s) = (AtBufferFull, shown p) # reassemble s"
proof -
  from assms(2) have "p \<noteq> []" by (auto simp: sizeof_buffer_def)
  with feed_full [of p "[]" s] assms show ?thesis by (simp add: reassemble_def)
qed

lemma reassemble_open:
  assumes "LF \<notin> set p" and "length p < sizeof_buffer - 1" and "p \<noteq> []"
  shows "reassemble p = [(AtExit, shown p)]"
  using feed_open [of p "[]"] assms by (simp add: reassemble_def)

subsection \<open>What is stripped from the lines\<close>

lemma stripped_from_simps:
  "stripped_from (AtNewline, l) t = (t = [LF] \<or> t = [CR, LF])"
  "stripped_from (AtBufferFull, l) t = (t = [] \<or> t = [CR])"
  "stripped_from (AtExit, l) t = (t = [] \<or> t = [CR])"
  by (simp_all add: stripped_from_def)

lemma shown_cut_off: "shown p @ cut_off p = p"
  by (simp add: shown_def cut_off_def)

lemma shown_cut_off_more: "shown p @ cut_off p @ ys = p @ ys"
  using shown_cut_off [of p] by (metis append_assoc)

lemma put_back_Cons: "put_back (l # ls) (t # ts) = snd l @ t @ put_back ls ts"
  by (simp add: put_back_def)

lemma put_back_Nil: "put_back [] ts = []"
  by (simp add: put_back_def)

lemma put_back_append:
  "length ls = length ts \<Longrightarrow> put_back (ls @ ls') (ts @ ts') = put_back ls ts @ put_back ls' ts'"
  by (simp add: put_back_def)

lemma cuts_length: "length (cuts cur s) = length (finished cur s)"
  by (induction s arbitrary: cur) auto

lemma cuts_put_back: "put_back (finished cur s) (cuts cur s) @ unfinished cur s = cur @ s"
proof (induction s arbitrary: cur)
  case Nil
  show ?case by (simp add: put_back_Nil)
next
  case (Cons c s)
  show ?case
  proof (cases "c = LF")
    case True
    with Cons.IH [of "[]"] show ?thesis
      by (simp add: put_back_Cons shown_cut_off_more)
  next
    case False
    show ?thesis
    proof (cases "length cur + 1 = sizeof_buffer - 1")
      case True
      with False Cons.IH [of "[]"] shown_cut_off_more [of "cur @ [c]" s] show ?thesis
        by (simp add: put_back_Cons)
    next
      case full: False
      with False Cons.IH [of "cur @ [c]"] show ?thesis by simp
    qed
  qed
qed

lemma all_cuts_put_back: "put_back (reassemble s) (all_cuts s) = s"
proof -
  have "put_back (reassemble s) (all_cuts s)
          = put_back (finished [] s) (cuts [] s) @
            (if unfinished [] s = [] then [] else shown (unfinished [] s) @ cut_off (unfinished [] s))"
    unfolding reassemble_def all_cuts_def
    by (subst put_back_append) (auto simp: cuts_length put_back_def)
  also have "\<dots> = put_back (finished [] s) (cuts [] s) @ unfinished [] s"
    by (simp add: shown_cut_off)
  finally show ?thesis using cuts_put_back [of "[]" s] by simp
qed

lemma cr_before_lf_suffix: "cr_before_lf (xs @ ys) \<Longrightarrow> cr_before_lf ys"
proof (induction xs)
  case Nil
  then show ?case by simp
next
  case (Cons x xs)
  then show ?case by (cases "xs @ ys") auto
qed

lemma cr_before_lf_prefix: "cr_before_lf (xs @ ys) \<Longrightarrow> cr_before_lf xs"
proof (induction xs rule: cr_before_lf.induct)
  case (1 c d s)
  then show ?case by simp
qed simp_all

lemma no_inner_cr: "cr_before_lf (p @ rest) \<Longrightarrow> LF \<notin> set p \<Longrightarrow> CR \<notin> set (butlast p)"
proof (induction p rule: cr_before_lf.induct)
  case (1 c d s)
  then show ?case by auto
qed simp_all

lemma piece_cut:
  assumes "NUL \<notin> set p" and "CR \<notin> set (butlast p)"
  shows "cut_off p = [] \<or> cut_off p = [CR]"
proof (cases "p = []")
  case True
  then show ?thesis by (simp add: cut_off_def)
next
  case False
  then have p: "p = butlast p @ [last p]" by simp
  from assms have "\<forall>c\<in>set (butlast p). c \<noteq> NUL \<and> c \<noteq> CR"
    by (auto dest: in_set_butlastD)
  then have "cut_off (butlast p @ [last p]) = dropWhile (\<lambda>c. c \<noteq> NUL \<and> c \<noteq> CR) [last p]"
    unfolding cut_off_def by (simp add: dropWhile_append)
  with p have c: "cut_off p = dropWhile (\<lambda>c. c \<noteq> NUL \<and> c \<noteq> CR) [last p]" by simp
  from assms(1) False have "last p \<noteq> NUL" by (metis last_in_set)
  with c show ?thesis by (cases "last p = CR") simp_all
qed

lemma cuts_terminators:
  "NUL \<notin> set cur \<Longrightarrow> NUL \<notin> set s \<Longrightarrow> LF \<notin> set cur \<Longrightarrow> cr_before_lf (cur @ s) \<Longrightarrow>
   list_all2 stripped_from (finished cur s) (cuts cur s)
   \<and> (cut_off (unfinished cur s) = [] \<or> cut_off (unfinished cur s) = [CR])"
proof (induction s arbitrary: cur)
  case Nil
  from no_inner_cr [of cur "[]"] Nil.prems have "CR \<notin> set (butlast cur)" by simp
  with piece_cut [of cur] Nil.prems show ?case by simp
next
  case (Cons c s)
  from Cons.prems have nul: "NUL \<notin> set s" "c \<noteq> NUL" by auto
  from Cons.prems(4) have rest: "cr_before_lf ([] @ s)"
    using cr_before_lf_suffix [of "cur @ [c]" s] by simp
  note fresh = Cons.IH [of "[]", OF _ nul(1) _ rest, simplified]
  show ?case
  proof (cases "c = LF")
    case True
    from no_inner_cr [of cur "c # s"] Cons.prems have "CR \<notin> set (butlast cur)" by simp
    with piece_cut [of cur] Cons.prems have "cut_off cur = [] \<or> cut_off cur = [CR]" by simp
    with True fresh show ?thesis by (auto simp: stripped_from_simps)
  next
    case False
    with Cons.prems nul have cur': "NUL \<notin> set (cur @ [c])" "LF \<notin> set (cur @ [c])"
      "cr_before_lf ((cur @ [c]) @ s)" by simp_all
    show ?thesis
    proof (cases "length cur + 1 = sizeof_buffer - 1")
      case True
      from no_inner_cr [OF cur'(3) cur'(2)] have "CR \<notin> set (butlast (cur @ [c]))" .
      with piece_cut [OF cur'(1)] have "cut_off (cur @ [c]) = [] \<or> cut_off (cur @ [c]) = [CR]" .
      with True False fresh show ?thesis by (auto simp: stripped_from_simps)
    next
      case full: False
      from Cons.IH [OF cur'(1) nul(1) cur'(2) cur'(3)] False full show ?thesis by simp
    qed
  qed
qed

lemma all_cuts_terminators:
  assumes "NUL \<notin> set s" and "cr_before_lf s"
  shows "list_all2 stripped_from (reassemble s) (all_cuts s)"
proof -
  from cuts_terminators [of "[]" s] assms
  have 1: "list_all2 stripped_from (finished [] s) (cuts [] s)"
    and 2: "cut_off (unfinished [] s) = [] \<or> cut_off (unfinished [] s) = [CR]"
    by simp_all
  from 2 have "list_all2 stripped_from
      (if unfinished [] s = [] then [] else [(AtExit, shown (unfinished [] s))])
      (if unfinished [] s = [] then [] else [cut_off (unfinished [] s)])"
    by (auto simp: stripped_from_simps)
  with 1 show ?thesis
    unfolding reassemble_def all_cuts_def by (rule list_all2_appendI)
qed

subsection \<open>Nothing lost, nothing twice\<close>

text \<open>
  C2 as stated fails for an output with a carriage return inside a line: of the bytes
  \<open>a CR b LF\<close> only \<open>a\<close> is logged, the byte \<open>b\<close> is in no logged line (and neither is it
  a terminator that could be put back).
\<close>

theorem round_trip_counterexample:
  "parent ''/bin/sh'' 42 None True [] (''a'' @ [CR] @ ''b'' @ [LF])
     [Ready (Some (ReadReturns 4)) None, Ready None (Some (WaitReaped 0))]
   = Some (0, None, [],
           [Poll 1, Read 4, ALOG LOG_INFO ''sh'' (Captured AtNewline ''a''), Poll 1, Waitpid 42])
   \<and> captured [Poll 1, Read 4, ALOG LOG_INFO ''sh'' (Captured AtNewline ''a''), Poll 1, Waitpid 42]
       = [(AtNewline, ''a'')]
   \<and> CHR ''b'' \<notin> set (concat (map snd [(AtNewline, ''a'')]))"
  by (simp add: run_defs)

text \<open>
  C2, amended. For an output without NUL bytes in which every carriage return stands
  right before a newline (or is the last byte), when logging is on, no read fails and the
  loop ends by reaping the child, whatever the sizes of the reads: each logged line can be
  given a stripped terminator (a newline, alone or after a carriage return, for a line
  that a newline ended; nothing or a carriage return for a flushed line) so that the
  lines with these terminators, followed by the bytes not yet read when the loop ended,
  are the output, byte for byte. For an output without carriage returns the terminators
  are the newline after each line that a newline ended, and nothing else.
\<close>

theorem round_trip:
  assumes "reaped cs = Some st" and "NUL \<notin> set out" and "cr_before_lf out"
  shows "\<exists>rc slot pending tr ts.
           parent tag pid chld_sts True junk out cs = Some (rc, slot, pending, tr)
           \<and> list_all2 stripped_from (captured tr) ts
           \<and> put_back (captured tr) ts @ pending = out
           \<and> (CR \<notin> set out \<longrightarrow> concat (map restore (captured tr)) @ pending = out)"
proof -
  from parent_refines [OF assms(1), of tag pid chld_sts junk out]
  obtain d pending tr rc slot where
    p: "parent tag pid chld_sts True junk out cs = Some (rc, slot, pending, tr)"
    and o: "out = d @ pending" and c: "captured tr = reassemble d"
    by blast
  from o assms(2) have nul: "NUL \<notin> set d" by auto
  moreover from o assms(3) have "cr_before_lf d" by (auto dest: cr_before_lf_prefix)
  ultimately have 1: "list_all2 stripped_from (captured tr) (all_cuts d)"
    unfolding c by (rule all_cuts_terminators)
  have 2: "put_back (captured tr) (all_cuts d) @ pending = out"
    unfolding c o by (simp add: all_cuts_put_back)
  have 3: "concat (map restore (captured tr)) @ pending = out" if "CR \<notin> set out"
  proof -
    from that o have "CR \<notin> set d" by auto
    from reassemble_round_trip [OF nul this] c o show ?thesis by simp
  qed
  from p 1 2 3 show ?thesis by blast
qed

theorem round_trip_witness:
  "reaped [Ready (Some (ReadReturns 5)) None, Ready (Some (ReadReturns 9)) (Some (WaitReaped 0))]
     = Some 0
   \<and> cr_before_lf (''hello'' @ [CR, LF] @ ''world'' @ [LF])
   \<and> (\<exists>rc slot pending tr ts.
         parent ''/bin/sh'' 42 None True [] (''hello'' @ [CR, LF] @ ''world'' @ [LF])
           [Ready (Some (ReadReturns 5)) None, Ready (Some (ReadReturns 9)) (Some (WaitReaped 0))]
           = Some (rc, slot, pending, tr)
         \<and> list_all2 stripped_from (captured tr) ts
         \<and> put_back (captured tr) ts @ pending = ''hello'' @ [CR, LF] @ ''world'' @ [LF])
   \<and> (\<exists>rc slot pending tr.
         parent ''/bin/sh'' 42 None True [] (''one'' @ [LF] @ ''two'')
           [Ready (Some (ReadReturns 5)) None, Ready (Some (ReadReturns 9)) (Some (WaitReaped 0))]
           = Some (rc, slot, pending, tr)
         \<and> concat (map restore (captured tr)) @ pending = ''one'' @ [LF] @ ''two'')"
  using round_trip [of "[Ready (Some (ReadReturns 5)) None, Ready (Some (ReadReturns 9)) (Some (WaitReaped 0))]"
          0 "''hello'' @ [CR, LF] @ ''world'' @ [LF]" "''/bin/sh''" 42 None "[]"]
        round_trip [of "[Ready (Some (ReadReturns 5)) None, Ready (Some (ReadReturns 9)) (Some (WaitReaped 0))]"
          0 "''one'' @ [LF] @ ''two''" "''/bin/sh''" 42 None "[]"]
  by auto


subsection \<open>Lines cut at a carriage return or a NUL\<close>

lemma shown_stop: "c = NUL \<or> c = CR \<Longrightarrow> shown (x @ c # y) = shown x"
  by (induction x) (auto simp: shown_def)

lemma long_line_run:
  assumes "c = NUL \<or> c = CR"
  shows "parent ''/bin/sh'' 42 None True [] (''x'' @ c # replicate 4094 (CHR ''y'') @ [LF])
           [Ready (Some (ReadReturns 4097)) None,
            Ready (Some (ReadReturns 4097)) (Some (WaitReaped 0))]
         = Some (0, None, [],
                 [Poll 1, Read 4095, ALOG LOG_INFO ''sh'' (Captured AtBufferFull ''x''),
                  Poll 1, Read 2, ALOG LOG_INFO ''sh'' (Captured AtNewline ''y''), Waitpid 42])"
proof -
  define d1 where "d1 = ''x'' @ c # replicate 4093 (CHR ''y'')"
  define d2 where "d2 = ''y'' @ [LF]"
  have "replicate 4094 (CHR ''y'') = replicate 4093 (CHR ''y'') @ replicate 1 (CHR ''y'')"
    unfolding replicate_add [symmetric] by simp
  then have out: "''x'' @ c # replicate 4094 (CHR ''y'') @ [LF] = d1 @ d2"
    by (simp add: d1_def d2_def)
  have l1: "length d1 = 4095" by (simp add: d1_def)
  from assms have nolf: "LF \<notin> set d1" by (auto simp: d1_def)
  have f1: "finished [] d1 = [(AtBufferFull, ''x'')]" and u1: "unfinished [] d1 = []"
    using feed_full [of d1 "[]" "[]"] nolf l1 shown_stop [OF assms, of "''x''" "replicate 4093 (CHR ''y'')"]
    by (auto simp: sizeof_buffer_def d1_def shown_def)
  have f2: "finished [] d2 = [(AtNewline, ''y'')]" and u2: "unfinished [] d2 = []"
    by (simp_all add: d2_def sizeof_buffer_def shown_def)
  have t1: "take (min 4097 (sizeof_buffer - 1 - 0)) (d1 @ d2) = d1"
    and r1: "drop (min 4097 (sizeof_buffer - 1 - 0)) (d1 @ d2) = d2"
    using l1 by (simp_all add: sizeof_buffer_def)
  from readable_step [OF at_head_start [of "[]"], where n = 4097 and logwrap = True
      and btag = "''sh''" and pending = "d1 @ d2" and tr = "[Poll 1]"]
  obtain buffer1 b1 where
    1: "readable True ''sh'' (ReadReturns 4097) (uninitialised []) 0 0 (d1 @ d2) [Poll 1]
          = (buffer1, 0, b1, d2,
             [Poll 1, Read 4095, ALOG LOG_INFO ''sh'' (Captured AtBufferFull ''x'')])"
    and h1: "at_head buffer1 0 b1 []"
    unfolding t1 r1 f1 u1 using l1 by (auto simp: logged_def)
  from h1 have b1: "b1 = 0" by (simp add: at_head_def)
  have t2: "take (min 4097 (sizeof_buffer - 1 - 0)) d2 = d2"
    and r2: "drop (min 4097 (sizeof_buffer - 1 - 0)) d2 = []"
    by (simp_all add: sizeof_buffer_def d2_def)
  have l2: "length d2 = 2" by (simp add: d2_def)
  from readable_step [OF h1 [unfolded b1], where n = 4097 and logwrap = True
      and btag = "''sh''" and pending = d2
      and tr = "[Poll 1, Read 4095, ALOG LOG_INFO ''sh'' (Captured AtBufferFull ''x''), Poll 1]"]
  obtain buffer2 b2 where
    2: "readable True ''sh'' (ReadReturns 4097) buffer1 0 0 d2
          [Poll 1, Read 4095, ALOG LOG_INFO ''sh'' (Captured AtBufferFull ''x''), Poll 1]
          = (buffer2, 0, b2, [],
             [Poll 1, Read 4095, ALOG LOG_INFO ''sh'' (Captured AtBufferFull ''x''),
              Poll 1, Read 2, ALOG LOG_INFO ''sh'' (Captured AtNewline ''y'')])"
    and h2: "at_head buffer2 0 b2 []"
    unfolding t2 r2 f2 u2 using l2 by (auto simp: logged_def)
  from h2 have b2: "b2 = 0" by (simp add: at_head_def)
  have "basename ''/bin/sh'' = ''sh''" by (simp add: basename_def)
  with 1 2 b1 b2 show ?thesis
    unfolding out
    by (simp add: parent_def turn_def final_log_def WIFEXITED_def WTERMSIG_def WEXITSTATUS_def)
qed

text \<open>
  C9 as stated fails in two ways. A line longer than the buffer is cut into pieces of
  4095 bytes, each logged on its own: of \<open>x CR y\<dots>y LF\<close> with 4094 bytes \<open>y\<close> the first
  4095 bytes are flushed as \<open>x\<close>, and the last \<open>y\<close>, a byte between the carriage return
  and the newline, is logged as the next line. And after a read that failed (second
  run) the NUL that replaced the carriage return is overwritten by the next read: the
  line \<open>ab CR cd LF\<close> is logged whole, as \<open>abcd\<close>.
\<close>

theorem carriage_return_truncates_counterexample:
  "parent ''/bin/sh'' 42 None True [] (''x'' @ CR # replicate 4094 (CHR ''y'') @ [LF])
     [Ready (Some (ReadReturns 4097)) None,
      Ready (Some (ReadReturns 4097)) (Some (WaitReaped 0))]
   = Some (0, None, [],
           [Poll 1, Read 4095, ALOG LOG_INFO ''sh'' (Captured AtBufferFull ''x''),
            Poll 1, Read 2, ALOG LOG_INFO ''sh'' (Captured AtNewline ''y''), Waitpid 42])
   \<and> captured [Poll 1, Read 4095, ALOG LOG_INFO ''sh'' (Captured AtBufferFull ''x''),
               Poll 1, Read 2, ALOG LOG_INFO ''sh'' (Captured AtNewline ''y''), Waitpid 42]
       = [(AtBufferFull, ''x''), (AtNewline, ''y'')]
   \<and> parent ''/bin/sh'' 42 None True [] (''ab'' @ CR # ''cd'' @ [LF])
       [Ready (Some (ReadReturns 3)) None, Ready (Some ReadFails) None,
        Ready (Some (ReadReturns 3)) (Some (WaitReaped 0))]
     = Some (0, None, [],
             [Poll 1, Read 3, Poll 1, Read (- 1), Poll 1, Read 3,
              ALOG LOG_INFO ''sh'' (Captured AtNewline ''abcd''), Waitpid 42])"
proof -
  have "parent ''/bin/sh'' 42 None True [] (''ab'' @ CR # ''cd'' @ [LF])
       [Ready (Some (ReadReturns 3)) None, Ready (Some ReadFails) None,
        Ready (Some (ReadReturns 3)) (Some (WaitReaped 0))]
     = Some (0, None, [],
             [Poll 1, Read 3, Poll 1, Read (- 1), Poll 1, Read 3,
              ALOG LOG_INFO ''sh'' (Captured AtNewline ''abcd''), Waitpid 42])"
    by (simp add: run_defs)
  with long_line_run [of CR] show ?thesis by simp
qed

text \<open>
  C9, amended. With logging on, in every run whose answers let the loop end by reaping
  the child and in which no read fails, the call returns, having read the bytes \<open>d\<close>
  of the output that the answers give (\<open>taken\<close>; \<open>pending\<close> are the bytes left unread).
  A line \<open>x CR y LF\<close> among the bytes read that starts where a piece starts (at the
  start of the output, after a newline or after a flush of the full buffer) and has
  fewer than 4095 bytes before its newline is logged as \<open>x\<close> up to its first carriage
  return or NUL, which is \<open>x\<close> itself when \<open>x\<close> has neither: no byte from the carriage
  return on is logged. The lines before and after are those of the bytes before and
  after.
\<close>

theorem carriage_return_truncates:
  assumes "reaped cs = Some st"
    and "unfinished [] before = []"
    and "LF \<notin> set x" and "LF \<notin> set y"
    and "length x + length y + 1 < sizeof_buffer - 1"
  shows "(\<exists>rc slot pending tr d.
            parent tag pid chld_sts True junk out cs = Some (rc, slot, pending, tr)
          \<and> d = taken cs [] out \<and> out = d @ pending
          \<and> (d = before @ x @ CR # y @ LF # rest
               \<longrightarrow> captured tr = finished [] before @ (AtNewline, shown x) # reassemble rest))
       \<and> (NUL \<notin> set x \<and> CR \<notin> set x \<longrightarrow> shown x = x)"
proof -
  define d where "d = taken cs [] out"
  from parent_reads [OF assms(1), of tag pid chld_sts junk out]
  obtain pending tr rc slot where
    p: "parent tag pid chld_sts True junk out cs = Some (rc, slot, pending, tr)"
    and o: "out = d @ pending" and c: "captured tr = reassemble d"
    unfolding d_def by blast
  have line: "captured tr = finished [] before @ (AtNewline, shown x) # reassemble rest"
    if d: "d = before @ x @ CR # y @ LF # rest"
  proof -
    from c d have "captured tr = reassemble (before @ (x @ CR # y) @ LF # rest)" by simp
    also have "\<dots> = finished [] before @ reassemble ((x @ CR # y) @ LF # rest)"
      by (rule reassemble_after [OF assms(2)])
    also have "reassemble ((x @ CR # y) @ LF # rest)
                 = (AtNewline, shown (x @ CR # y)) # reassemble rest"
      using assms(3,4,5) by (intro reassemble_line) auto
    also have "shown (x @ CR # y) = shown x" by (simp add: shown_stop)
    finally show ?thesis .
  qed
  have "NUL \<notin> set x \<and> CR \<notin> set x \<longrightarrow> shown x = x" by (simp add: shown_plain)
  with p o d_def line show ?thesis by blast
qed

theorem carriage_return_truncates_witness:
  "reaped [Ready (Some (ReadReturns 14)) (Some (WaitReaped 0))] = Some 0
   \<and> unfinished [] (''up'' @ [LF]) = []
   \<and> taken [Ready (Some (ReadReturns 14)) (Some (WaitReaped 0))] []
         (''up'' @ [LF] @ ''12%'' @ CR # ''100%'' @ LF # ''ok'')
       = ''up'' @ [LF] @ ''12%'' @ CR # ''100%'' @ LF # ''ok''
   \<and> (\<exists>rc slot tr.
         parent ''/bin/sh'' 42 None True [] (''up'' @ [LF] @ ''12%'' @ CR # ''100%'' @ LF # ''ok'')
           [Ready (Some (ReadReturns 14)) (Some (WaitReaped 0))] = Some (rc, slot, [], tr)
         \<and> captured tr = [(AtNewline, ''up''), (AtNewline, ''12%''), (AtExit, ''ok'')])"
proof -
  let ?out = "''up'' @ [LF] @ ''12%'' @ CR # ''100%'' @ LF # ''ok''"
  let ?cs = "[Ready (Some (ReadReturns 14)) (Some (WaitReaped 0))]"
  have r: "reaped ?cs = Some 0" by simp
  have u: "unfinished [] (''up'' @ [LF]) = []" by (rule ends_line) simp
  have t: "taken ?cs [] ?out = ?out" by (simp add: read_count_def sizeof_buffer_def)
  have g: "reassemble ''ok'' = [(AtExit, ''ok'')]"
    by (simp add: reassemble_def sizeof_buffer_def shown_def)
  have s: "shown ''12%'' = ''12%''" by (simp add: shown_def)
  from carriage_return_truncates [OF r u, where x = "''12%''" and y = "''100%''"
      and tag = "''/bin/sh''" and pid = 42 and chld_sts = None and junk = "[]" and out = ?out
      and rest = "''ok''", unfolded t]
  have "\<exists>rc slot tr.
         parent ''/bin/sh'' 42 None True [] ?out ?cs = Some (rc, slot, [], tr)
         \<and> captured tr = [(AtNewline, ''up''), (AtNewline, ''12%''), (AtExit, ''ok'')]"
    by (auto simp: g s sizeof_buffer_def shown_def)
  with r u t show ?thesis by blast
qed

text \<open>
  C10 as stated fails in two ways. A line longer than the buffer is cut into pieces of
  4095 bytes: of \<open>x NUL y\<dots>y LF\<close> with 4094 bytes \<open>y\<close> the first 4095 bytes are flushed
  as \<open>x\<close>, and the last \<open>y\<close>, a byte between the NUL and the newline that ends the line,
  is logged as the next line. And after a read that failed (second run) the next read
  overwrites the NUL, the last byte kept in the buffer: the line \<open>ab NUL cd LF\<close> is
  logged as \<open>abcd\<close>.
\<close>

theorem nul_truncates_counterexample:
  "parent ''/bin/sh'' 42 None True [] (''x'' @ NUL # replicate 4094 (CHR ''y'') @ [LF])
     [Ready (Some (ReadReturns 4097)) None,
      Ready (Some (ReadReturns 4097)) (Some (WaitReaped 0))]
   = Some (0, None, [],
           [Poll 1, Read 4095, ALOG LOG_INFO ''sh'' (Captured AtBufferFull ''x''),
            Poll 1, Read 2, ALOG LOG_INFO ''sh'' (Captured AtNewline ''y''), Waitpid 42])
   \<and> captured [Poll 1, Read 4095, ALOG LOG_INFO ''sh'' (Captured AtBufferFull ''x''),
               Poll 1, Read 2, ALOG LOG_INFO ''sh'' (Captured AtNewline ''y''), Waitpid 42]
       = [(AtBufferFull, ''x''), (AtNewline, ''y'')]
   \<and> parent ''/bin/sh'' 42 None True [] (''ab'' @ NUL # ''cd'' @ [LF])
       [Ready (Some (ReadReturns 3)) None, Ready (Some ReadFails) None,
        Ready (Some (ReadReturns 3)) (Some (WaitReaped 0))]
     = Some (0, None, [],
             [Poll 1, Read 3, Poll 1, Read (- 1), Poll 1, Read 3,
              ALOG LOG_INFO ''sh'' (Captured AtNewline ''abcd''), Waitpid 42])"
proof -
  have "parent ''/bin/sh'' 42 None True [] (''ab'' @ NUL # ''cd'' @ [LF])
       [Ready (Some (ReadReturns 3)) None, Ready (Some ReadFails) None,
        Ready (Some (ReadReturns 3)) (Some (WaitReaped 0))]
     = Some (0, None, [],
             [Poll 1, Read 3, Poll 1, Read (- 1), Poll 1, Read 3,
              ALOG LOG_INFO ''sh'' (Captured AtNewline ''abcd''), Waitpid 42])"
    by (simp add: run_defs)
  with long_line_run [of NUL] show ?thesis by simp
qed

text \<open>
  C10, amended. With logging on, in every run whose answers let the loop end by reaping
  the child and in which no read fails, the call returns, having read the bytes \<open>d\<close>
  of the output that the answers give (\<open>taken\<close>; \<open>pending\<close> are the bytes left unread).
  A piece \<open>x NUL y\<close> of the bytes read, a piece being what starts at the start of the
  output, after a newline or after a flush of the full buffer and ends at the next
  newline, at its 4095th byte or with the last byte read, is logged as \<open>x\<close> up to its
  first NUL or carriage return, which is \<open>x\<close> itself when \<open>x\<close> has neither: no byte of
  the piece from the NUL on is logged. This holds on each of the three paths: a newline
  ends the piece, the piece fills the buffer and is flushed, the piece is open when the
  loop ends and is flushed after it.
\<close>

theorem nul_truncates:
  assumes "reaped cs = Some st"
    and "unfinished [] before = []"
    and "LF \<notin> set x" and "LF \<notin> set y"
  shows "(\<exists>rc slot pending tr d.
            parent tag pid chld_sts True junk out cs = Some (rc, slot, pending, tr)
          \<and> d = taken cs [] out \<and> out = d @ pending
          \<and> (d = before @ x @ NUL # y @ LF # rest \<and> length x + length y + 1 < sizeof_buffer - 1
               \<longrightarrow> captured tr = finished [] before @ (AtNewline, shown x) # reassemble rest)
          \<and> (d = before @ x @ NUL # y @ rest \<and> length x + length y + 1 = sizeof_buffer - 1
               \<longrightarrow> captured tr = finished [] before @ (AtBufferFull, shown x) # reassemble rest)
          \<and> (d = before @ x @ NUL # y \<and> length x + length y + 1 < sizeof_buffer - 1
               \<longrightarrow> captured tr = finished [] before @ [(AtExit, shown x)]))
       \<and> (NUL \<notin> set x \<and> CR \<notin> set x \<longrightarrow> shown x = x)"
proof -
  define d where "d = taken cs [] out"
  from parent_reads [OF assms(1), of tag pid chld_sts junk out]
  obtain pending tr rc slot where
    p: "parent tag pid chld_sts True junk out cs = Some (rc, slot, pending, tr)"
    and o: "out = d @ pending" and c: "captured tr = reassemble d"
    unfolding d_def by blast
  note after = reassemble_after [OF assms(2)]
  have sh: "shown (x @ NUL # y) = shown x" by (simp add: shown_stop)
  have nolf: "LF \<notin> set (x @ NUL # y)" using assms(3,4) by simp
  have 1: "captured tr = finished [] before @ (AtNewline, shown x) # reassemble rest"
    if "d = before @ x @ NUL # y @ LF # rest" "length x + length y + 1 < sizeof_buffer - 1"
  proof -
    from that(2) have "length (x @ NUL # y) < sizeof_buffer - 1" by simp
    from reassemble_line [OF nolf this, of rest] c after [of "(x @ NUL # y) @ LF # rest"] that(1)
    show ?thesis by (simp add: sh)
  qed
  have 2: "captured tr = finished [] before @ (AtBufferFull, shown x) # reassemble rest"
    if "d = before @ x @ NUL # y @ rest" "length x + length y + 1 = sizeof_buffer - 1"
  proof -
    from that(2) have "length (x @ NUL # y) = sizeof_buffer - 1" by simp
    from reassemble_full [OF nolf this, of rest] c after [of "(x @ NUL # y) @ rest"] that(1)
    show ?thesis by (simp add: sh)
  qed
  have 3: "captured tr = finished [] before @ [(AtExit, shown x)]"
    if "d = before @ x @ NUL # y" "length x + length y + 1 < sizeof_buffer - 1"
  proof -
    from that(2) have "length (x @ NUL # y) < sizeof_buffer - 1" by simp
    from reassemble_open [OF nolf this] c after [of "x @ NUL # y"] that(1)
    show ?thesis by (simp add: sh)
  qed
  have "NUL \<notin> set x \<and> CR \<notin> set x \<longrightarrow> shown x = x" by (simp add: shown_plain)
  with p o d_def 1 2 3 show ?thesis by blast
qed

theorem nul_truncates_witness:
  "(\<exists>rc slot tr.
      parent ''/bin/sh'' 42 None True [] (''ab'' @ NUL # ''cd'' @ LF # ''z'')
        [Ready (Some (ReadReturns 7)) (Some (WaitReaped 0))] = Some (rc, slot, [], tr)
      \<and> captured tr = [(AtNewline, ''ab''), (AtExit, ''z'')])
   \<and> (\<exists>rc slot tr.
      parent ''/bin/sh'' 42 None True [] (''ab'' @ NUL # replicate 4092 (CHR ''c''))
        [Ready (Some (ReadReturns 4095)) (Some (WaitReaped 0))] = Some (rc, slot, [], tr)
      \<and> captured tr = [(AtBufferFull, ''ab'')])
   \<and> (\<exists>rc slot tr.
      parent ''/bin/sh'' 42 None True [] (''ab'' @ NUL # ''cd'')
        [Ready (Some (ReadReturns 5)) (Some (WaitReaped 0))] = Some (rc, slot, [], tr)
      \<and> captured tr = [(AtExit, ''ab'')])
   \<and> unfinished [] (replicate 4095 (CHR ''a'')) = []
   \<and> (\<exists>rc slot tr.
      parent ''/bin/sh'' 42 None True [] (replicate 4095 (CHR ''a'') @ ''ab'' @ NUL # ''cd'' @ LF # ''z'')
        [Ready (Some (ReadReturns 4095)) None,
         Ready (Some (ReadReturns 4095)) (Some (WaitReaped 0))] = Some (rc, slot, [], tr)
      \<and> captured tr = [(AtBufferFull, replicate 4095 (CHR ''a'')), (AtNewline, ''ab''),
                        (AtExit, ''z'')])"
proof -
  have g: "reassemble ''z'' = [(AtExit, ''z'')]" "reassemble [] = []"
    by (simp_all add: reassemble_def sizeof_buffer_def shown_def)
  have s: "shown ''ab'' = ''ab''" by (simp add: shown_def)
  have u: "unfinished [] [] = []" by simp
  have r7: "reaped [Ready (Some (ReadReturns 7)) (Some (WaitReaped 0))] = Some 0" by simp
  have t1: "taken [Ready (Some (ReadReturns 7)) (Some (WaitReaped 0))] []
              (''ab'' @ NUL # ''cd'' @ LF # ''z'') = ''ab'' @ NUL # ''cd'' @ LF # ''z''"
    by (simp add: read_count_def sizeof_buffer_def)
  from nul_truncates [OF r7 u, where x = "''ab''" and y = "''cd''" and rest = "''z''"
      and tag = "''/bin/sh''" and pid = 42 and chld_sts = None and junk = "[]"
      and out = "''ab'' @ NUL # ''cd'' @ LF # ''z''", unfolded t1]
  have 1: "\<exists>rc slot tr.
      parent ''/bin/sh'' 42 None True [] (''ab'' @ NUL # ''cd'' @ LF # ''z'')
        [Ready (Some (ReadReturns 7)) (Some (WaitReaped 0))] = Some (rc, slot, [], tr)
      \<and> captured tr = [(AtNewline, ''ab''), (AtExit, ''z'')]"
    by (auto simp: g s sizeof_buffer_def)
  have rf: "reaped [Ready (Some (ReadReturns 4095)) (Some (WaitReaped 0))] = Some 0" by simp
  have t2: "taken [Ready (Some (ReadReturns 4095)) (Some (WaitReaped 0))] []
              (''ab'' @ NUL # replicate 4092 (CHR ''c'')) = ''ab'' @ NUL # replicate 4092 (CHR ''c'')"
    by (simp add: read_count_def sizeof_buffer_def)
  from nul_truncates [OF rf u, where x = "''ab''" and y = "replicate 4092 (CHR ''c'')"
      and rest = "[]" and tag = "''/bin/sh''" and pid = 42 and chld_sts = None and junk = "[]"
      and out = "''ab'' @ NUL # replicate 4092 (CHR ''c'')", unfolded t2]
  have 2: "\<exists>rc slot tr.
      parent ''/bin/sh'' 42 None True [] (''ab'' @ NUL # replicate 4092 (CHR ''c''))
        [Ready (Some (ReadReturns 4095)) (Some (WaitReaped 0))] = Some (rc, slot, [], tr)
      \<and> captured tr = [(AtBufferFull, ''ab'')]"
    by (auto simp: g s sizeof_buffer_def)
  have r5: "reaped [Ready (Some (ReadReturns 5)) (Some (WaitReaped 0))] = Some 0" by simp
  have t3: "taken [Ready (Some (ReadReturns 5)) (Some (WaitReaped 0))] []
              (''ab'' @ NUL # ''cd'') = ''ab'' @ NUL # ''cd''"
    by (simp add: read_count_def sizeof_buffer_def)
  from nul_truncates [OF r5 u, where x = "''ab''" and y = "''cd''" and rest = "[]"
      and tag = "''/bin/sh''" and pid = 42 and chld_sts = None and junk = "[]"
      and out = "''ab'' @ NUL # ''cd''", unfolded t3]
  have 3: "\<exists>rc slot tr.
      parent ''/bin/sh'' 42 None True [] (''ab'' @ NUL # ''cd'')
        [Ready (Some (ReadReturns 5)) (Some (WaitReaped 0))] = Some (rc, slot, [], tr)
      \<and> captured tr = [(AtExit, ''ab'')]"
    by (auto simp: g s sizeof_buffer_def)
  have r2: "reaped [Ready (Some (ReadReturns 4095)) None,
                    Ready (Some (ReadReturns 4095)) (Some (WaitReaped 0))] = Some 0" by simp
  have fl: "finished [] (replicate 4095 (CHR ''a'')) = [(AtBufferFull, replicate 4095 (CHR ''a''))]"
    and ua: "unfinished [] (replicate 4095 (CHR ''a'')) = []"
    using feed_full [of "replicate 4095 (CHR ''a'')" "[]" "[]"]
    by (simp_all add: sizeof_buffer_def shown_plain)
  have t4: "taken [Ready (Some (ReadReturns 4095)) None,
                   Ready (Some (ReadReturns 4095)) (Some (WaitReaped 0))] []
              (replicate 4095 (CHR ''a'') @ ''ab'' @ NUL # ''cd'' @ LF # ''z'')
            = replicate 4095 (CHR ''a'') @ ''ab'' @ NUL # ''cd'' @ LF # ''z''"
    by (simp add: read_count_def sizeof_buffer_def ua)
  from nul_truncates [OF r2 ua, where x = "''ab''" and y = "''cd''" and rest = "''z''"
      and tag = "''/bin/sh''" and pid = 42 and chld_sts = None and junk = "[]"
      and out = "replicate 4095 (CHR ''a'') @ ''ab'' @ NUL # ''cd'' @ LF # ''z''", unfolded t4]
  have 4: "\<exists>rc slot tr.
      parent ''/bin/sh'' 42 None True [] (replicate 4095 (CHR ''a'') @ ''ab'' @ NUL # ''cd'' @ LF # ''z'')
        [Ready (Some (ReadReturns 4095)) None,
         Ready (Some (ReadReturns 4095)) (Some (WaitReaped 0))] = Some (rc, slot, [], tr)
      \<and> captured tr = [(AtBufferFull, replicate 4095 (CHR ''a'')), (AtNewline, ''ab''),
                        (AtExit, ''z'')]"
    by (auto simp: g s fl sizeof_buffer_def)
  from 1 2 3 ua 4 show ?thesis by blast
qed

subsection \<open>Five thousand bytes without a newline\<close>










end
